theory Spec2Isabelle
  imports Main
begin

section \<open>Data model\<close>

text \<open>
  The relational schema of \<^verbatim>\<open>database/schema/001..006\<close>. A table is the list of its rows
  in storage order. Timestamps are integers (milliseconds since the epoch), identifiers
  are the values of the \<^verbatim>\<open>SERIAL\<close> columns, \<^verbatim>\<open>INTEGER\<close> columns are integers, and a
  nullable text column is an option.
\<close>

type_synonym timestamp = int

datatype reg_status = confirmed | cancelled | waitlist | pending

record user_row =
  u_id :: nat
  u_name :: string
  u_email :: string
  u_is_active :: bool

record event_row =
  e_id :: nat
  title :: string
  description :: "string option"
  date_time :: timestamp
  location :: "string option"
  capacity :: int
  current_registrations :: int
  created_by :: nat
  is_active :: bool
  created_at :: timestamp
  updated_at :: timestamp

record registration_row =
  r_id :: nat
  user_id :: nat
  event_id :: nat
  registered_at :: timestamp
  status :: reg_status

record db =
  users :: "user_row list"
  events :: "event_row list"
  registrations :: "registration_row list"
  registrations_id_seq :: nat

text \<open>The error classes of \<^verbatim>\<open>src/middleware/errorHandler.js\<close>, each with its message.\<close>

datatype app_error =
    ValidationError string
  | NotFoundError string
  | ConflictError string
  | BusinessLogicError string
  | Error string

fun statusCode :: "app_error \<Rightarrow> nat" where
  "statusCode (ValidationError m) = 400"
| "statusCode (NotFoundError m) = 404"
| "statusCode (ConflictError m) = 409"
| "statusCode (BusinessLogicError m) = 400"
| "statusCode (Error m) = 500"

section \<open>Input validation: \<^verbatim>\<open>src/middleware/eventValidation.js\<close>\<close>

text \<open>
  \<^verbatim>\<open>isInt({ min, max })\<close> on a request field that holds an integer: the value passes
  when it lies between the two bounds, both included.
\<close>

definition isInt :: "int \<Rightarrow> int \<Rightarrow> int \<Rightarrow> bool" where
  "isInt lo hi v = (lo \<le> v \<and> v \<le> hi)"

text \<open>
  The \<^verbatim>\<open>capacity\<close> chain of \<^verbatim>\<open>validateCreateEvent\<close>: the list of messages that
  \<^verbatim>\<open>handleValidationErrors\<close> finds for the field; the request goes on to the controller
  when the list is empty and is answered with a \<^verbatim>\<open>ValidationError\<close> otherwise.
\<close>

definition validateCreateEvent_capacity :: "int \<Rightarrow> string list" where
  "validateCreateEvent_capacity v =
     (if isInt 1 1000 v then []
      else [''Capacity must be an integer between 1 and 1000''])"

text \<open>
  The two \<^verbatim>\<open>CHECK\<close> constraints that the table \<^verbatim>\<open>events\<close> of migration 002 puts on
  \<^verbatim>\<open>capacity\<close>, and the test of the trigger function \<^verbatim>\<open>validate_event_data\<close> of
  migration 006 (true when the trigger raises).
\<close>

definition events_valid_capacity :: "int \<Rightarrow> bool" where
  "events_valid_capacity c = (0 < c \<and> c \<le> 1000 \<and> 1 \<le> c \<and> c \<le> 1000)"

definition validate_event_data_capacity_raises :: "int \<Rightarrow> bool" where
  "validate_event_data_capacity_raises c = (c \<le> 0 \<or> c > 10000)"

section \<open>Event details: \<^verbatim>\<open>getEventDetails\<close>\<close>

text \<open>
  The JavaScript value of \<^verbatim>\<open>a && b && c\<close> is its first falsy operand, so
  \<^verbatim>\<open>can_register\<close> is \<^verbatim>\<open>undefined\<close> for an anonymous viewer, the number \<^verbatim>\<open>0\<close> for a
  viewer whose id is \<^verbatim>\<open>0\<close>, and a boolean otherwise.
\<close>

datatype js_value = JS_undefined | JS_number nat | JS_bool bool

record user_permissions =
  can_edit :: bool
  can_register :: js_value
  is_registered :: bool

record event_details =
  available_spots :: int
  is_full :: bool
  has_started :: bool
  permissions :: user_permissions

definition checkUserRegistration :: "db \<Rightarrow> nat \<Rightarrow> nat \<Rightarrow> bool" where
  "checkUserRegistration s eventId userId =
     (filter (\<lambda>r. event_id r = eventId \<and> user_id r = userId \<and> status r = confirmed)
        (registrations s) \<noteq> [])"

definition hasEventStarted :: "timestamp \<Rightarrow> timestamp \<Rightarrow> bool" where
  "hasEventStarted now eventDateTime = (eventDateTime \<le> now)"

text \<open>
  \<^verbatim>\<open>getEventDetails\<close>: the event is read with its creator joined in, so it is found
  when it is active and its creator exists. \<^verbatim>\<open>viewer\<close> is \<^verbatim>\<open>req.user?.id\<close>.
\<close>

definition getEventDetails ::
  "timestamp \<Rightarrow> db \<Rightarrow> nat \<Rightarrow> nat option \<Rightarrow> app_error + event_details" where
  "getEventDetails now s eventId viewer =
     (case find (\<lambda>e. e_id e = eventId \<and> is_active e \<and>
                     find (\<lambda>u. u_id u = created_by e) (users s) \<noteq> None) (events s) of
        None \<Rightarrow> Inl (NotFoundError ''Event not found'')
      | Some event \<Rightarrow>
          let isRegistered =
                (case viewer of
                   None \<Rightarrow> False
                 | Some v \<Rightarrow> if v = 0 then False else checkUserRegistration s eventId v)
          in Inr \<lparr> available_spots = capacity event - current_registrations event,
                   is_full = (current_registrations event \<ge> capacity event),
                   has_started = (date_time event \<le> now),
                   permissions =
                     \<lparr> can_edit = (viewer = Some (created_by event)),
                       can_register =
                         (case viewer of
                            None \<Rightarrow> JS_undefined
                          | Some v \<Rightarrow>
                              if v = 0 then JS_number 0
                              else JS_bool (\<not> isRegistered \<and>
                                            \<not> hasEventStarted now (date_time event))),
                       is_registered = isRegistered \<rparr> \<rparr>)"

section \<open>Statistics: \<^verbatim>\<open>getEventStats\<close>\<close>

record event_statistics =
  is_event_soon :: bool
  time_until_event_ms :: int
  used :: int
  available :: int

definition getEventStats :: "timestamp \<Rightarrow> db \<Rightarrow> nat \<Rightarrow> app_error + event_statistics" where
  "getEventStats now s eventId =
     (case find (\<lambda>e. e_id e = eventId \<and> is_active e) (events s) of
        None \<Rightarrow> Inl (NotFoundError ''Event not found'')
      | Some event \<Rightarrow>
          let timeUntilEvent = date_time event - now;
              isEventSoon = (timeUntilEvent < 24 * 60 * 60 * 1000)
          in Inr \<lparr> is_event_soon = isEventSoon,
                   time_until_event_ms = timeUntilEvent,
                   used = current_registrations event,
                   available = capacity event - current_registrations event \<rparr>)"

section \<open>Listing: \<^verbatim>\<open>getUpcomingEvents\<close>\<close>

text \<open>
  The query string after \<^verbatim>\<open>validateUpcomingEventsQuery\<close>: \<^verbatim>\<open>sort_by\<close> is one of the
  five fields of its \<^verbatim>\<open>isIn\<close> list and \<^verbatim>\<open>sort_order\<close> is upper-cased by its sanitizer.
  An absent parameter is \<^verbatim>\<open>None\<close>.
\<close>

datatype sort_field =
  By_date_time | By_title | By_capacity | By_current_registrations | By_created_at

datatype sort_direction = ASC | DESC

record upcoming_query =
  page :: "nat option"
  limit :: "nat option"
  sort_by :: "sort_field option"
  sort_order :: "sort_direction option"
  search :: "string option"
  location_filter :: "string option"
  min_capacity :: "int option"
  max_capacity :: "int option"
  date_from :: "timestamp option"
  date_to :: "timestamp option"

text \<open>
  What the database decides about text and the source does not: the full-text match
  \<^verbatim>\<open>to_tsvector(...) @@ plainto_tsquery(...)\<close> of a document and a query, the pattern
  match \<^verbatim>\<open>ILIKE\<close> of a value and a pattern, and the collation order of two strings.
\<close>

record text_ops =
  ts_match :: "string \<Rightarrow> string \<Rightarrow> bool"
  ilike :: "string \<Rightarrow> string \<Rightarrow> bool"
  collate_le :: "string \<Rightarrow> string \<Rightarrow> bool"

text \<open>\<^verbatim>\<open>ORDER BY e.date_time ASC, e.location ASC NULLS LAST\<close>.\<close>

fun location_le :: "text_ops \<Rightarrow> string option \<Rightarrow> string option \<Rightarrow> bool" where
  "location_le ops (Some a) (Some b) = collate_le ops a b"
| "location_le ops (Some a) None = True"
| "location_le ops None (Some b) = False"
| "location_le ops None None = True"

definition order_by_le :: "text_ops \<Rightarrow> event_row \<Rightarrow> event_row \<Rightarrow> bool" where
  "order_by_le ops a b =
     (date_time a < date_time b \<or>
      (date_time a = date_time b \<and> location_le ops (location a) (location b)))"

fun insert_by :: "('a \<Rightarrow> 'a \<Rightarrow> bool) \<Rightarrow> 'a \<Rightarrow> 'a list \<Rightarrow> 'a list" where
  "insert_by le x [] = [x]"
| "insert_by le x (y # ys) = (if le x y then x # y # ys else y # insert_by le x ys)"

fun sort_by_le :: "('a \<Rightarrow> 'a \<Rightarrow> bool) \<Rightarrow> 'a list \<Rightarrow> 'a list" where
  "sort_by_le le [] = []"
| "sort_by_le le (x # xs) = insert_by le x (sort_by_le le xs)"

text \<open>
  The \<^verbatim>\<open>WHERE\<close> clause that the controller builds: the two fixed conditions and one
  condition for each truthy filter (a non-empty string, a non-zero number, a date).
\<close>

definition coalesce :: "string option \<Rightarrow> string" where
  "coalesce x = (case x of None \<Rightarrow> [] | Some v \<Rightarrow> v)"

definition whereClause :: "text_ops \<Rightarrow> timestamp \<Rightarrow> upcoming_query \<Rightarrow> event_row \<Rightarrow> bool" where
  "whereClause ops now q e =
     (is_active e \<and> date_time e > now \<and>
      (case search q of
         None \<Rightarrow> True
       | Some t \<Rightarrow>
           if t = [] then True
           else ts_match ops
                  (title e @ '' '' @ coalesce (description e) @ '' '' @ coalesce (location e)) t) \<and>
      (case location_filter q of
         None \<Rightarrow> True
       | Some l \<Rightarrow>
           if l = [] then True
           else (case location e of
                   None \<Rightarrow> False
                 | Some v \<Rightarrow> ilike ops v (''%'' @ l @ ''%''))) \<and>
      (case min_capacity q of
         None \<Rightarrow> True
       | Some m \<Rightarrow> if m = 0 then True else capacity e \<ge> m) \<and>
      (case max_capacity q of
         None \<Rightarrow> True
       | Some m \<Rightarrow> if m = 0 then True else capacity e \<le> m) \<and>
      (case date_from q of None \<Rightarrow> True | Some d \<Rightarrow> date_time e \<ge> d) \<and>
      (case date_to q of None \<Rightarrow> True | Some d \<Rightarrow> date_time e \<le> d))"

record upcoming_page =
  page_events :: "event_row list"
  total_items :: nat

text \<open>
  \<^verbatim>\<open>getUpcomingEvents\<close>. The controller reads \<^verbatim>\<open>page\<close>, \<^verbatim>\<open>limit\<close> and the six filters
  from \<^verbatim>\<open>req.query\<close>; the \<^verbatim>\<open>ORDER BY\<close> of its query is a constant of the source text.
  The events are joined with their creators. The validator admits a \<^verbatim>\<open>page\<close> from 1, so
  the offset is not negative.
\<close>

definition getUpcomingEvents ::
  "text_ops \<Rightarrow> timestamp \<Rightarrow> db \<Rightarrow> upcoming_query \<Rightarrow> upcoming_page" where
  "getUpcomingEvents ops now s q =
     (let page_no = (case page q of None \<Rightarrow> 1 | Some p \<Rightarrow> p);
          lim = (case limit q of None \<Rightarrow> 10 | Some l \<Rightarrow> l);
          offset = (page_no - 1) * lim;
          matching = filter (whereClause ops now q) (events s);
          joined = filter (\<lambda>e. find (\<lambda>u. u_id u = created_by e) (users s) \<noteq> None) matching
      in \<lparr> page_events = take lim (drop offset (sort_by_le (order_by_le ops) joined)),
           total_items = length matching \<rparr>)"

section \<open>The database: constraints and triggers\<close>

text \<open>
  A statement that fails raises an error with an \<^verbatim>\<open>SQLSTATE\<close>: the codes that the
  functions of migration 004 give to \<^verbatim>\<open>RAISE\<close> (a \<^verbatim>\<open>RAISE EXCEPTION\<close> without a code
  has \<^verbatim>\<open>P0001\<close>), and those of a foreign-key, unique and check violation. A message
  is written without the values that \<^verbatim>\<open>RAISE\<close> formats into it; no code reads it.
\<close>

datatype sqlstate =
  P0001 | P0002 | P0003 | P0004 | P0005 | SQLSTATE_23503 | SQLSTATE_23505 | SQLSTATE_23514

datatype pg_error = PgError sqlstate string

fun map_where :: "('a \<Rightarrow> bool) \<Rightarrow> ('a \<Rightarrow> pg_error + 'a) \<Rightarrow> 'a list \<Rightarrow> pg_error + 'a list" where
  "map_where P f [] = Inr []"
| "map_where P f (x # xs) =
     (if P x then
        (case f x of
           Inl err \<Rightarrow> Inl err
         | Inr y \<Rightarrow> (case map_where P f xs of Inl err \<Rightarrow> Inl err | Inr ys \<Rightarrow> Inr (y # ys)))
      else (case map_where P f xs of Inl err \<Rightarrow> Inl err | Inr ys \<Rightarrow> Inr (x # ys)))"

fun fold_err :: "('a \<Rightarrow> 's \<Rightarrow> pg_error + 's) \<Rightarrow> 'a list \<Rightarrow> 's \<Rightarrow> pg_error + 's" where
  "fold_err f [] s = Inr s"
| "fold_err f (x # xs) s = (case f x s of Inl err \<Rightarrow> Inl err | Inr s' \<Rightarrow> fold_err f xs s')"

subsection \<open>Table \<^verbatim>\<open>events\<close>: an \<^verbatim>\<open>UPDATE\<close> of a row\<close>

text \<open>\<^verbatim>\<open>TRIM\<close> removes the spaces at both ends.\<close>

definition trim :: "string \<Rightarrow> string" where
  "trim t = rev (dropWhile (\<lambda>c. c = CHR '' '') (rev (dropWhile (\<lambda>c. c = CHR '' '') t)))"

text \<open>Trigger function \<^verbatim>\<open>validate_event_date\<close> (migration 002).\<close>

definition validate_event_date ::
  "timestamp \<Rightarrow> event_row \<Rightarrow> event_row \<Rightarrow> pg_error + event_row" where
  "validate_event_date now old new =
     (if date_time old \<le> now \<and> date_time new \<noteq> date_time old
      then Inl (PgError P0001 ''Cannot change date/time of past events'')
      else if date_time new \<le> now
      then Inl (PgError P0001 ''Event date/time must be in the future'')
      else Inr new)"

text \<open>Trigger function \<^verbatim>\<open>update_updated_at_column\<close> (migration 001).\<close>

definition update_updated_at_column :: "timestamp \<Rightarrow> event_row \<Rightarrow> event_row" where
  "update_updated_at_column now new = new\<lparr>updated_at := now\<rparr>"

text \<open>
  Trigger function \<^verbatim>\<open>validate_event_data\<close> (migration 006) when \<^verbatim>\<open>TG_OP = 'UPDATE'\<close>.
\<close>

definition blank_to_null :: "string option \<Rightarrow> string option" where
  "blank_to_null x =
     (case x of None \<Rightarrow> None | Some v \<Rightarrow> if length (trim v) = 0 then None else Some v)"

definition validate_event_data ::
  "timestamp \<Rightarrow> event_row \<Rightarrow> event_row \<Rightarrow> pg_error + event_row" where
  "validate_event_data now old new =
     (if length (trim (title new)) = 0
      then Inl (PgError P0001 ''Event title cannot be empty or just whitespace'')
      else if date_time old \<noteq> date_time new \<and> date_time old \<le> now
      then Inl (PgError P0001 ''Cannot change date of past events'')
      else if date_time old \<noteq> date_time new \<and> date_time new \<le> now
      then Inl (PgError P0001 ''New event date must be in the future'')
      else if capacity new \<le> 0 \<or> capacity new > 10000
      then Inl (PgError P0001 ''Event capacity must be between 1 and 10000'')
      else if capacity new < current_registrations old
      then Inl (PgError P0001 ''Cannot reduce capacity below current registrations'')
      else if current_registrations new < 0
      then Inl (PgError P0001 ''Current registrations cannot be negative'')
      else if current_registrations new > capacity new
      then Inl (PgError P0001 ''Current registrations cannot exceed capacity'')
      else Inr (new\<lparr>location := blank_to_null (location new),
                     description := blank_to_null (description new)\<rparr>))"

text \<open>The \<^verbatim>\<open>CHECK\<close> constraints of \<^verbatim>\<open>CREATE TABLE events\<close> (migration 002).\<close>

definition events_check_constraints :: "timestamp \<Rightarrow> event_row \<Rightarrow> bool" where
  "events_check_constraints now e =
     (length (trim (title e)) > 0 \<and>
      (capacity e > 0 \<and> capacity e \<le> 1000) \<and>
      current_registrations e \<ge> 0 \<and>
      (1 \<le> length (title e) \<and> length (title e) \<le> 500) \<and>
      (case location e of None \<Rightarrow> True | Some l \<Rightarrow> length l \<le> 500) \<and>
      (case description e of None \<Rightarrow> True | Some d \<Rightarrow> length d \<le> 10000) \<and>
      date_time e > now \<and>
      current_registrations e \<le> capacity e \<and>
      (1 \<le> capacity e \<and> capacity e \<le> 1000))"

text \<open>
  One row of \<^verbatim>\<open>UPDATE events SET current_registrations = c\<close>: the \<^verbatim>\<open>BEFORE UPDATE\<close>
  triggers in the order of their names (\<^verbatim>\<open>trigger_events_date_validation\<close>,
  \<^verbatim>\<open>trigger_events_updated_at\<close>, \<^verbatim>\<open>trigger_validate_event_data\<close>), then the
  constraints of the table.
\<close>

definition update_event_row :: "timestamp \<Rightarrow> int \<Rightarrow> event_row \<Rightarrow> pg_error + event_row" where
  "update_event_row now c old =
     (case validate_event_date now old (old\<lparr>current_registrations := c\<rparr>) of
        Inl err \<Rightarrow> Inl err
      | Inr new1 \<Rightarrow>
          (case validate_event_data now old (update_updated_at_column now new1) of
             Inl err \<Rightarrow> Inl err
           | Inr new2 \<Rightarrow>
               if events_check_constraints now new2 then Inr new2
               else Inl (PgError SQLSTATE_23514 ''violates check constraint'')))"

text \<open>\<^verbatim>\<open>UPDATE events SET current_registrations = c WHERE id = eid\<close>.\<close>

definition update_events_current_registrations ::
  "timestamp \<Rightarrow> nat \<Rightarrow> int \<Rightarrow> db \<Rightarrow> pg_error + db" where
  "update_events_current_registrations now eid c s =
     (case map_where (\<lambda>e. e_id e = eid) (update_event_row now c) (events s) of
        Inl err \<Rightarrow> Inl err
      | Inr es \<Rightarrow> Inr (s\<lparr>events := es\<rparr>))"

subsection \<open>Table \<^verbatim>\<open>registrations\<close>: triggers\<close>

definition count_confirmed :: "registration_row list \<Rightarrow> nat \<Rightarrow> int" where
  "count_confirmed rs eid =
     int (length (filter (\<lambda>r. event_id r = eid \<and> status r = confirmed) rs))"

text \<open>
  Trigger function \<^verbatim>\<open>update_event_registration_count\<close> (migration 003), one definition
  for each \<^verbatim>\<open>TG_OP\<close>. It runs \<^verbatim>\<open>AFTER\<close> the statement, so its count reads the table as
  the statement left it: with the inserted row, with the new status, without the
  deleted rows. \<^verbatim>\<open>SELECT capacity INTO event_capacity\<close> leaves \<^verbatim>\<open>NULL\<close> when the event
  does not exist, and the comparison with \<^verbatim>\<open>NULL\<close> does not raise.
\<close>

definition update_event_registration_count_INSERT ::
  "timestamp \<Rightarrow> registration_row \<Rightarrow> db \<Rightarrow> pg_error + db" where
  "update_event_registration_count_INSERT now new s =
     (let event_capacity = map_option capacity (find (\<lambda>e. e_id e = event_id new) (events s));
          current_count = count_confirmed (registrations s) (event_id new)
      in if (case event_capacity of None \<Rightarrow> False | Some cap \<Rightarrow> current_count \<ge> cap)
         then Inl (PgError P0001 ''Event has reached maximum capacity'')
         else update_events_current_registrations now (event_id new) current_count s)"

definition update_event_registration_count_UPDATE ::
  "timestamp \<Rightarrow> registration_row \<Rightarrow> db \<Rightarrow> pg_error + db" where
  "update_event_registration_count_UPDATE now new s =
     update_events_current_registrations now (event_id new)
       (count_confirmed (registrations s) (event_id new)) s"

definition update_event_registration_count_DELETE ::
  "timestamp \<Rightarrow> registration_row \<Rightarrow> db \<Rightarrow> pg_error + db" where
  "update_event_registration_count_DELETE now old s =
     update_events_current_registrations now (event_id old)
       (count_confirmed (registrations s) (event_id old)) s"

text \<open>Trigger function \<^verbatim>\<open>validate_event_registration\<close> (migration 003).\<close>

definition validate_event_registration ::
  "timestamp \<Rightarrow> db \<Rightarrow> registration_row \<Rightarrow> pg_error + registration_row" where
  "validate_event_registration now s new =
     (case find (\<lambda>e. e_id e = event_id new) (events s) of
        None \<Rightarrow> Inl (PgError P0001 ''Event does not exist'')
      | Some e \<Rightarrow>
          if \<not> is_active e then Inl (PgError P0001 ''Cannot register for inactive event'')
          else if date_time e \<le> now then Inl (PgError P0001 ''Cannot register for past events'')
          else Inr new)"

text \<open>Trigger function \<^verbatim>\<open>validate_registration_data\<close> (migration 006).\<close>

definition validate_registration_data ::
  "timestamp \<Rightarrow> db \<Rightarrow> registration_row \<Rightarrow> pg_error + registration_row" where
  "validate_registration_data now s new =
     (case find (\<lambda>e. e_id e = event_id new) (events s) of
        None \<Rightarrow> Inl (PgError P0001 ''Event does not exist'')
      | Some event_record \<Rightarrow>
          if \<not> is_active event_record
          then Inl (PgError P0001 ''Cannot register for inactive event'')
          else (case find (\<lambda>u. u_id u = user_id new) (users s) of
                  None \<Rightarrow> Inl (PgError P0001 ''User does not exist'')
                | Some user_record \<Rightarrow>
                    if \<not> u_is_active user_record
                    then Inl (PgError P0001 ''Cannot register inactive user'')
                    else if date_time event_record \<le> now
                    then Inl (PgError P0001 ''Cannot register for past events'')
                    else if status new = confirmed \<and>
                            current_registrations event_record \<ge> capacity event_record
                    then Inl (PgError P0001 ''Event has reached maximum capacity'')
                    else if status new \<notin> {confirmed, cancelled, waitlist, pending}
                    then Inl (PgError P0001 ''Invalid registration status'')
                    else Inr new))"

text \<open>The \<^verbatim>\<open>CHECK\<close> on \<^verbatim>\<open>status\<close> of \<^verbatim>\<open>CREATE TABLE registrations\<close> (migration 003).\<close>

definition registrations_status_check :: "reg_status \<Rightarrow> bool" where
  "registrations_status_check st = (st \<in> {confirmed, cancelled, waitlist})"

subsection \<open>Table \<^verbatim>\<open>registrations\<close>: statements\<close>

text \<open>
  The statements below run their row triggers as PostgreSQL does: the \<^verbatim>\<open>BEFORE\<close>
  triggers in the order of their names, then the constraints of the table, then, once
  the rows are written, the \<^verbatim>\<open>AFTER\<close> triggers. A statement that raises leaves the
  tables as they were; a value taken from the sequence of \<^verbatim>\<open>id\<close> is not given back.
  The audit triggers of migration 006 write to \<^verbatim>\<open>audit_log\<close> only and are left out, and
  the partial unique index of migration 005 follows from the \<^verbatim>\<open>UNIQUE\<close> constraint of
  the table.
\<close>

definition insert_row_checked ::
  "timestamp \<Rightarrow> db \<Rightarrow> registration_row \<Rightarrow> pg_error + db" where
  "insert_row_checked now s new0 =
     (case validate_event_registration now s new0 of
        Inl err \<Rightarrow> Inl err
      | Inr new1 \<Rightarrow>
          (case validate_registration_data now s new1 of
             Inl err \<Rightarrow> Inl err
           | Inr new \<Rightarrow>
               if \<not> registrations_status_check (status new)
               then Inl (PgError SQLSTATE_23514 ''violates check constraint'')
               else if find (\<lambda>r. r_id r = r_id new) (registrations s) \<noteq> None
               then Inl (PgError SQLSTATE_23505 ''duplicate key value: registrations_pkey'')
               else if find (\<lambda>r. user_id r = user_id new \<and> event_id r = event_id new)
                         (registrations s) \<noteq> None
               then Inl (PgError SQLSTATE_23505
                           ''duplicate key value: unique_user_event_registration'')
               else if find (\<lambda>u. u_id u = user_id new) (users s) = None
               then Inl (PgError SQLSTATE_23503 ''violates foreign key constraint'')
               else if find (\<lambda>e. e_id e = event_id new) (events s) = None
               then Inl (PgError SQLSTATE_23503 ''violates foreign key constraint'')
               else update_event_registration_count_INSERT now new
                      (s\<lparr>registrations := registrations s @ [new]\<rparr>)))"

text \<open>
  \<^verbatim>\<open>INSERT INTO registrations (user_id, event_id, status) VALUES (...) RETURNING id\<close>:
  \<^verbatim>\<open>id\<close> and \<^verbatim>\<open>registered_at\<close> take their defaults.
\<close>

definition insert_registration ::
  "timestamp \<Rightarrow> nat \<Rightarrow> nat \<Rightarrow> reg_status \<Rightarrow> db \<Rightarrow> (pg_error + nat) \<times> db" where
  "insert_registration now uid eid st s =
     (let rid = registrations_id_seq s;
          s0 = s\<lparr>registrations_id_seq := rid + 1\<rparr>
      in case insert_row_checked now s0
                \<lparr>r_id = rid, user_id = uid, event_id = eid, registered_at = now, status = st\<rparr> of
           Inl err \<Rightarrow> (Inl err, s0)
         | Inr s1 \<Rightarrow> (Inr rid, s1))"

text \<open>
  \<^verbatim>\<open>UPDATE registrations SET status = 'confirmed', registered_at = CURRENT_TIMESTAMP
  WHERE id = rid\<close>, the statement of the reactivation path of \<^verbatim>\<open>registerForEvent\<close>.
\<close>

definition reactivated :: "timestamp \<Rightarrow> registration_row \<Rightarrow> registration_row" where
  "reactivated now r = r\<lparr>status := confirmed, registered_at := now\<rparr>"

definition update_row_checked ::
  "timestamp \<Rightarrow> db \<Rightarrow> registration_row \<Rightarrow> pg_error + registration_row" where
  "update_row_checked now s old =
     (case validate_registration_data now s (reactivated now old) of
        Inl err \<Rightarrow> Inl err
      | Inr new \<Rightarrow>
          if registrations_status_check (status new) then Inr new
          else Inl (PgError SQLSTATE_23514 ''violates check constraint''))"

definition update_registration_confirmed :: "timestamp \<Rightarrow> nat \<Rightarrow> db \<Rightarrow> pg_error + db" where
  "update_registration_confirmed now rid s =
     (case map_where (\<lambda>r. r_id r = rid) (update_row_checked now s) (registrations s) of
        Inl err \<Rightarrow> Inl err
      | Inr rs \<Rightarrow>
          fold_err (update_event_registration_count_UPDATE now)
            (filter (\<lambda>r. r_id r = rid) rs) (s\<lparr>registrations := rs\<rparr>))"

text \<open>\<^verbatim>\<open>DELETE FROM registrations WHERE P\<close>.\<close>

definition delete_registrations ::
  "timestamp \<Rightarrow> (registration_row \<Rightarrow> bool) \<Rightarrow> db \<Rightarrow> pg_error + db" where
  "delete_registrations now P s =
     fold_err (update_event_registration_count_DELETE now)
       (filter P (registrations s))
       (s\<lparr>registrations := filter (\<lambda>r. \<not> P r) (registrations s)\<rparr>)"

text \<open>
  \<^verbatim>\<open>DELETE FROM events WHERE id = eid\<close>: the foreign key of \<^verbatim>\<open>registrations.event_id\<close>
  is \<^verbatim>\<open>ON DELETE CASCADE\<close>, so the registrations of the event are deleted after it.
\<close>

definition delete_event :: "timestamp \<Rightarrow> nat \<Rightarrow> db \<Rightarrow> pg_error + db" where
  "delete_event now eid s =
     delete_registrations now (\<lambda>r. event_id r = eid)
       (s\<lparr>events := filter (\<lambda>e. e_id e \<noteq> eid) (events s)\<rparr>)"

text \<open>
  \<^verbatim>\<open>DELETE FROM users WHERE id = uid\<close>: the events that the user created go first, each
  with its registrations, then the registrations of the user.
\<close>

definition delete_user :: "timestamp \<Rightarrow> nat \<Rightarrow> db \<Rightarrow> pg_error + db" where
  "delete_user now uid s =
     (case fold_err (\<lambda>e. delete_registrations now (\<lambda>r. event_id r = e_id e))
             (filter (\<lambda>e. created_by e = uid) (events s))
             (s\<lparr>users := filter (\<lambda>u. u_id u \<noteq> uid) (users s),
                events := filter (\<lambda>e. created_by e \<noteq> uid) (events s)\<rparr>) of
        Inl err \<Rightarrow> Inl err
      | Inr s1 \<Rightarrow> delete_registrations now (\<lambda>r. user_id r = uid) s1)"

section \<open>The functions of migration 004\<close>

text \<open>
  The JSON object that \<^verbatim>\<open>safe_event_registration\<close> and \<^verbatim>\<open>safe_event_unregistration\<close>
  return: \<^verbatim>\<open>success\<close> with the registration id (for an unregistration, nothing) and
  the time, or the \<^verbatim>\<open>SQLSTATE\<close> and message that the handler \<^verbatim>\<open>WHEN OTHERS\<close> caught.
\<close>

datatype 'a fn_result =
    Fn_success 'a timestamp
  | Fn_failure sqlstate string

definition failure_of :: "pg_error \<Rightarrow> 'a fn_result" where
  "failure_of err = (case err of PgError code msg \<Rightarrow> Fn_failure code msg)"

text \<open>
  \<^verbatim>\<open>safe_event_registration(p_user_id, p_event_id)\<close>. The advisory lock and
  \<^verbatim>\<open>FOR UPDATE\<close> order the calls on one event; one call runs from its first statement to
  its last on the tables as the call before it left them. \<^verbatim>\<open>CURRENT_TIMESTAMP\<close> is one
  value throughout.
\<close>

definition safe_event_registration :: "timestamp \<Rightarrow> nat \<Rightarrow> nat \<Rightarrow> db \<Rightarrow> nat fn_result \<times> db" where
  "safe_event_registration now p_user_id p_event_id s =
     (case find (\<lambda>e. e_id e = p_event_id \<and> is_active e) (events s) of
        None \<Rightarrow> (Fn_failure P0001 ''Event not found or inactive'', s)
      | Some event_record \<Rightarrow>
          if date_time event_record \<le> now
          then (Fn_failure P0002 ''Cannot register for past events'', s)
          else if find (\<lambda>r. user_id r = p_user_id \<and> event_id r = p_event_id)
                    (registrations s) \<noteq> None
          then (Fn_failure P0003 ''User already registered for this event'', s)
          else if current_registrations event_record \<ge> capacity event_record
          then (Fn_failure P0004 ''Event has reached maximum capacity'', s)
          else (case insert_registration now p_user_id p_event_id confirmed s of
                  (Inl err, s') \<Rightarrow> (failure_of err, s')
                | (Inr registration_id, s') \<Rightarrow> (Fn_success registration_id now, s')))"

text \<open>\<^verbatim>\<open>safe_event_unregistration(p_user_id, p_event_id)\<close>.\<close>

definition safe_event_unregistration :: "timestamp \<Rightarrow> nat \<Rightarrow> nat \<Rightarrow> db \<Rightarrow> unit fn_result \<times> db" where
  "safe_event_unregistration now p_user_id p_event_id s =
     (case find (\<lambda>e. e_id e = p_event_id \<and> is_active e) (events s) of
        None \<Rightarrow> (Fn_failure P0001 ''Event not found or inactive'', s)
      | Some event_record \<Rightarrow>
          if date_time event_record \<le> now
          then (Fn_failure P0002 ''Cannot unregister from past events'', s)
          else if find (\<lambda>r. user_id r = p_user_id \<and> event_id r = p_event_id)
                    (registrations s) = None
          then (Fn_failure P0005 ''User is not registered for this event'', s)
          else (case delete_registrations now
                       (\<lambda>r. user_id r = p_user_id \<and> event_id r = p_event_id) s of
                  Inl err \<Rightarrow> (failure_of err, s)
                | Inr s' \<Rightarrow> (Fn_success () now, s')))"

section \<open>The registration engine: \<^verbatim>\<open>src/controllers/eventController.js\<close>\<close>

text \<open>
  A request to \<^verbatim>\<open>POST /api/events/:id/register\<close> after \<^verbatim>\<open>protect\<close> and
  \<^verbatim>\<open>validateRegistration\<close>: \<^verbatim>\<open>req.params.id\<close>, \<^verbatim>\<open>req.body.user_id\<close> and \<^verbatim>\<open>req.user.id\<close>.
\<close>

record register_request =
  reg_event_id :: nat
  reg_body_user_id :: "nat option"
  reg_requesting_user :: nat

text \<open>\<^verbatim>\<open>req.body.user_id || req.user.id\<close>.\<close>

definition target_user :: "register_request \<Rightarrow> nat" where
  "target_user req =
     (case reg_body_user_id req of
        None \<Rightarrow> reg_requesting_user req
      | Some u \<Rightarrow> if u = 0 then reg_requesting_user req else u)"

text \<open>
  The answers of \<^verbatim>\<open>registerForEvent\<close>: status 201 with the new registration, status 200
  with the reactivated one, or the error that the handler throws.
\<close>

datatype register_response = Created nat | Reactivated nat | RegisterFailed app_error

abbreviation EventNotFound :: app_error where
  "EventNotFound \<equiv> NotFoundError ''Event not found''"

abbreviation EventPast :: app_error where
  "EventPast \<equiv> BusinessLogicError ''Cannot register for past events''"

abbreviation EventFull :: app_error where
  "EventFull \<equiv> BusinessLogicError ''Event has reached maximum capacity''"

abbreviation AlreadyRegistered :: app_error where
  "AlreadyRegistered \<equiv> ConflictError ''User is already registered for this event''"

abbreviation RegistrationFailed :: app_error where
  "RegistrationFailed \<equiv> Error ''Registration failed. Please try again.''"

text \<open>
  Step 5 of \<^verbatim>\<open>registerForEvent\<close>: the call of \<^verbatim>\<open>safe_event_registration\<close> through
  \<^verbatim>\<open>pool.safeEventRegistration\<close> and the translation of its result. An \<^verbatim>\<open>Error\<close> that is
  none of the known classes is thrown again as \<^verbatim>\<open>Registration failed\<close>.
\<close>

definition register_step5 :: "timestamp \<Rightarrow> nat \<Rightarrow> nat \<Rightarrow> db \<Rightarrow> register_response \<times> db" where
  "register_step5 now_db userId eventId s =
     (case safe_event_registration now_db userId eventId s of
        (Fn_failure error_code error_message, s') \<Rightarrow>
          (if error_code = P0003 then RegisterFailed AlreadyRegistered
           else if error_code = P0004 then RegisterFailed EventFull
           else if error_code = P0002 then RegisterFailed EventPast
           else RegisterFailed RegistrationFailed, s')
      | (Fn_success registration_id registered_time, s') \<Rightarrow> (Created registration_id, s'))"

text \<open>
  \<^verbatim>\<open>registerForEvent\<close>. \<^verbatim>\<open>now_js\<close> is the \<^verbatim>\<open>new Date()\<close> of the handler and \<^verbatim>\<open>now_db\<close>
  the \<^verbatim>\<open>CURRENT_TIMESTAMP\<close> of the statement that writes (the reactivating \<^verbatim>\<open>UPDATE\<close> or
  the call of \<^verbatim>\<open>safe_event_registration\<close>).
\<close>

definition registerForEvent ::
  "timestamp \<Rightarrow> timestamp \<Rightarrow> register_request \<Rightarrow> db \<Rightarrow> register_response \<times> db" where
  "registerForEvent now_js now_db req s =
     (let eventId = reg_event_id req;
          userId = target_user req
      in case find (\<lambda>e. e_id e = eventId \<and> is_active e) (events s) of
           None \<Rightarrow> (RegisterFailed EventNotFound, s)
         | Some event \<Rightarrow>
             if date_time event \<le> now_js then (RegisterFailed EventPast, s)
             else if current_registrations event \<ge> capacity event
             then (RegisterFailed EventFull, s)
             else (case find (\<lambda>r. user_id r = userId \<and> event_id r = eventId)
                          (registrations s) of
                     None \<Rightarrow> register_step5 now_db userId eventId s
                   | Some registration \<Rightarrow>
                       if status registration = confirmed
                       then (RegisterFailed AlreadyRegistered, s)
                       else if status registration = cancelled
                       then (case update_registration_confirmed now_db (r_id registration) s of
                               Inl err \<Rightarrow> (RegisterFailed RegistrationFailed, s)
                             | Inr s' \<Rightarrow> (Reactivated (r_id registration), s'))
                       else register_step5 now_db userId eventId s))"

text \<open>
  A request to \<^verbatim>\<open>DELETE /api/events/:id/register/:userId\<close>: \<^verbatim>\<open>req.params.id\<close>,
  \<^verbatim>\<open>req.params.userId\<close>, \<^verbatim>\<open>req.user.id\<close> and \<^verbatim>\<open>req.user.is_admin\<close>.
\<close>

record cancel_request =
  cancel_event_id :: nat
  cancel_target_user :: nat
  cancel_requesting_user :: nat
  cancel_is_admin :: bool

datatype cancel_response = Cancelled | CancelFailed app_error

text \<open>\<^verbatim>\<open>cancelRegistration\<close>, with the two clocks of \<^verbatim>\<open>registerForEvent\<close>.\<close>

definition cancelRegistration ::
  "timestamp \<Rightarrow> timestamp \<Rightarrow> cancel_request \<Rightarrow> db \<Rightarrow> cancel_response \<times> db" where
  "cancelRegistration now_js now_db req s =
     (if cancel_target_user req \<noteq> cancel_requesting_user req \<and> \<not> cancel_is_admin req
      then (CancelFailed (BusinessLogicError ''You can only cancel your own registration''), s)
      else (case find (\<lambda>e. e_id e = cancel_event_id req \<and> is_active e) (events s) of
              None \<Rightarrow> (CancelFailed EventNotFound, s)
            | Some event \<Rightarrow>
                if date_time event \<le> now_js
                then (CancelFailed
                        (BusinessLogicError ''Cannot cancel registration for past events''), s)
                else (case safe_event_unregistration now_db (cancel_target_user req)
                             (cancel_event_id req) s of
                        (Fn_failure error_code error_message, s') \<Rightarrow>
                          (if error_code = P0005
                           then CancelFailed (NotFoundError ''Registration not found not found'')
                           else if error_code = P0002
                           then CancelFailed
                                  (BusinessLogicError
                                     ''Cannot cancel registration for past events'')
                           else CancelFailed (Error ''Cancellation failed. Please try again.''),
                           s')
                      | (Fn_success u unregistered_at, s') \<Rightarrow> (Cancelled, s'))))"

section \<open>Invariants and operations\<close>

text \<open>
  The counter invariant: on every event row, \<^verbatim>\<open>current_registrations\<close> is the number of
  registrations of that event whose status is \<^verbatim>\<open>confirmed\<close>.
\<close>

definition counter_inv :: "db \<Rightarrow> bool" where
  "counter_inv s =
     list_all (\<lambda>e. current_registrations e = count_confirmed (registrations s) (e_id e))
       (events s)"

text \<open>The keys of the schema: the two primary keys and \<^verbatim>\<open>unique_user_event_registration\<close>.\<close>

definition events_pkey :: "db \<Rightarrow> bool" where
  "events_pkey s = distinct (map e_id (events s))"

definition registrations_pkey :: "db \<Rightarrow> bool" where
  "registrations_pkey s = distinct (map r_id (registrations s))"

definition unique_user_event_registration :: "db \<Rightarrow> bool" where
  "unique_user_event_registration s =
     distinct (map (\<lambda>r. (user_id r, event_id r)) (registrations s))"

definition db_keys :: "db \<Rightarrow> bool" where
  "db_keys s = (events_pkey s \<and> registrations_pkey s \<and> unique_user_event_registration s)"

text \<open>The sequence of \<^verbatim>\<open>registrations.id\<close> is ahead of every id in the table.\<close>

definition registrations_id_fresh :: "db \<Rightarrow> bool" where
  "registrations_id_fresh s =
     list_all (\<lambda>r. r_id r < registrations_id_seq s) (registrations s)"

text \<open>
  The operations that write registrations: the two handlers (reactivation is a path of
  \<^verbatim>\<open>registerForEvent\<close>) and the two cascading deletes. An operation that fails leaves
  the tables as they were.
\<close>

datatype operation =
    Register timestamp timestamp register_request
  | Cancel timestamp timestamp cancel_request
  | DeleteEvent timestamp nat
  | DeleteUser timestamp nat

fun apply_operation :: "operation \<Rightarrow> db \<Rightarrow> db" where
  "apply_operation (Register now_js now_db req) s = snd (registerForEvent now_js now_db req s)"
| "apply_operation (Cancel now_js now_db req) s = snd (cancelRegistration now_js now_db req s)"
| "apply_operation (DeleteEvent now eid) s =
     (case delete_event now eid s of Inl err \<Rightarrow> s | Inr s' \<Rightarrow> s')"
| "apply_operation (DeleteUser now uid) s =
     (case delete_user now uid s of Inl err \<Rightarrow> s | Inr s' \<Rightarrow> s')"

fun run :: "operation list \<Rightarrow> db \<Rightarrow> db" where
  "run [] s = s"
| "run (op # ops) s = run ops (apply_operation op s)"

text \<open>
  Register calls that reach the database one after the other, with the clock at rest:
  the answers in the order of the calls, and the state after the last one.
\<close>

fun register_each ::
  "timestamp \<Rightarrow> register_request list \<Rightarrow> db \<Rightarrow> register_response list \<times> db" where
  "register_each now [] s = ([], s)"
| "register_each now (req # reqs) s =
     (case registerForEvent now now req s of
        (res, s1) \<Rightarrow> (case register_each now reqs s1 of (ress, s2) \<Rightarrow> (res # ress, s2)))"

text \<open>What one \<^verbatim>\<open>UPDATE\<close> of the counter makes of an event row, when it succeeds.\<close>

definition recount_row :: "timestamp \<Rightarrow> int \<Rightarrow> event_row \<Rightarrow> event_row" where
  "recount_row now c e =
     e\<lparr>current_registrations := c, updated_at := now,
       location := blank_to_null (location e), description := blank_to_null (description e)\<rparr>"

text \<open>
  The effect of the counting trigger on the events, fired once for each row of a set of
  registrations: an event of one of these rows has the count of its confirmed
  registrations, every other event row is as it was, and no other table has changed.
\<close>

definition row_recounted :: "nat set \<Rightarrow> registration_row list \<Rightarrow> event_row \<Rightarrow> event_row \<Rightarrow> bool" where
  "row_recounted A rs e e' \<longleftrightarrow>
     e_id e' = e_id e \<and> is_active e' = is_active e \<and> capacity e' = capacity e \<and>
     date_time e' = date_time e \<and> created_by e' = created_by e \<and>
     (if e_id e \<in> A then current_registrations e' = count_confirmed rs (e_id e) else e' = e)"

definition recounted :: "nat set \<Rightarrow> db \<Rightarrow> db \<Rightarrow> bool" where
  "recounted A s s' \<longleftrightarrow>
     registrations s' = registrations s \<and> users s' = users s \<and>
     registrations_id_seq s' = registrations_id_seq s \<and>
     list_all2 (row_recounted A (registrations s)) (events s) (events s')"

text \<open>
  The registrations of one user for one event, the counter of the event that the
  handlers read (the active row with the id), and the rows whose status is
  \<^verbatim>\<open>cancelled\<close>.
\<close>

definition registrations_of :: "db \<Rightarrow> nat \<Rightarrow> nat \<Rightarrow> registration_row list" where
  "registrations_of s u e = filter (\<lambda>r. user_id r = u \<and> event_id r = e) (registrations s)"

definition event_counter :: "db \<Rightarrow> nat \<Rightarrow> int option" where
  "event_counter s eid =
     map_option current_registrations (find (\<lambda>e. e_id e = eid \<and> is_active e) (events s))"

definition cancelled_rows :: "db \<Rightarrow> registration_row set" where
  "cancelled_rows s = {r \<in> set (registrations s). status r = cancelled}"

text \<open>The HTTP status of an answer of \<^verbatim>\<open>registerForEvent\<close>, and whether it is a success.\<close>

fun response_status :: "register_response \<Rightarrow> nat" where
  "response_status (Created rid) = 201"
| "response_status (Reactivated rid) = 200"
| "response_status (RegisterFailed err) = statusCode err"

fun succeeded :: "register_response \<Rightarrow> bool" where
  "succeeded (Created rid) = True"
| "succeeded (Reactivated rid) = True"
| "succeeded (RegisterFailed err) = False"

section \<open>Example data\<close>

definition demo_user :: "nat \<Rightarrow> user_row" where
  "demo_user i =
     \<lparr> u_id = i, u_name = ''User'', u_email = ''user@example.com'', u_is_active = True \<rparr>"

text \<open>An event of user 1: its id, capacity, counter, date and \<^verbatim>\<open>is_active\<close>.\<close>

definition demo_event :: "nat \<Rightarrow> int \<Rightarrow> int \<Rightarrow> timestamp \<Rightarrow> bool \<Rightarrow> event_row" where
  "demo_event i cap cnt dt act =
     \<lparr> e_id = i, title = ''Conference'', description = None, date_time = dt, location = None,
       capacity = cap, current_registrations = cnt, created_by = 1, is_active = act,
       created_at = 0, updated_at = 0 \<rparr>"

definition demo_registration :: "nat \<Rightarrow> nat \<Rightarrow> nat \<Rightarrow> reg_status \<Rightarrow> registration_row" where
  "demo_registration i u e st =
     \<lparr> r_id = i, user_id = u, event_id = e, registered_at = 0, status = st \<rparr>"

definition demo_db :: "event_row list \<Rightarrow> registration_row list \<Rightarrow> db" where
  "demo_db es rs =
     \<lparr> users = [demo_user 1, demo_user 2, demo_user 3, demo_user 4, demo_user 5],
       events = es, registrations = rs, registrations_id_seq = Suc (length rs) \<rparr>"

text \<open>User \<^verbatim>\<open>u\<close> registers for event 1, and cancels the own registration for it.\<close>

definition demo_register :: "nat \<Rightarrow> register_request" where
  "demo_register u = \<lparr> reg_event_id = 1, reg_body_user_id = None, reg_requesting_user = u \<rparr>"

definition demo_cancel :: "nat \<Rightarrow> cancel_request" where
  "demo_cancel u =
     \<lparr> cancel_event_id = 1, cancel_target_user = u, cancel_requesting_user = u,
       cancel_is_admin = False \<rparr>"

definition demo_query :: upcoming_query where
  "demo_query =
     \<lparr> page = None, limit = None, sort_by = Some By_capacity, sort_order = Some DESC,
       search = None, location_filter = None, min_capacity = None, max_capacity = None,
       date_from = None, date_to = None \<rparr>"

section \<open>Evaluation\<close>

named_theorems model_defs

lemmas [model_defs] =
  demo_user_def demo_event_def demo_registration_def demo_db_def demo_register_def
  demo_cancel_def demo_query_def
  registerForEvent_def register_step5_def safe_event_registration_def
  insert_registration_def insert_row_checked_def validate_event_registration_def
  validate_registration_data_def registrations_status_check_def
  update_event_registration_count_INSERT_def update_events_current_registrations_def
  update_event_row_def validate_event_date_def validate_event_data_def
  update_updated_at_column_def events_check_constraints_def count_confirmed_def trim_def
  blank_to_null_def target_user_def failure_of_def cancelRegistration_def
  safe_event_unregistration_def delete_registrations_def
  update_event_registration_count_DELETE_def update_registration_confirmed_def
  update_row_checked_def reactivated_def update_event_registration_count_UPDATE_def
  delete_event_def delete_user_def counter_inv_def events_pkey_def registrations_pkey_def
  unique_user_event_registration_def registrations_of_def event_counter_def
  registrations_id_fresh_def

section \<open>Capacity ceiling of CreateEvent\<close>

lemma validateCreateEvent_capacity_iff:
  "validateCreateEvent_capacity v = [] \<longleftrightarrow> 1 \<le> v \<and> v \<le> 1000"
  by (simp add: validateCreateEvent_capacity_def isInt_def)

text \<open>
  Claim C6 says that CreateEvent accepts a requested capacity of 10,000 and rejects
  10,001, the capacity field being valid exactly between 1 and 10,000. The validator of
  the route rejects 10,000 (its ceiling is 1,000) and so does the constraint of the
  table, while the trigger of migration 006 would let it pass.
\<close>

theorem C6_capacity_10000_rejected:
  "validateCreateEvent_capacity 10000 = [''Capacity must be an integer between 1 and 1000'']
   \<and> \<not> events_valid_capacity 10000
   \<and> \<not> validate_event_data_capacity_raises 10000"
  by (simp add: validateCreateEvent_capacity_def isInt_def events_valid_capacity_def
      validate_event_data_capacity_raises_def)

section \<open>The flag \<^verbatim>\<open>can_register\<close>\<close>

lemma can_register_iff:
  assumes "getEventDetails now s eventId viewer = Inr d"
    and "find (\<lambda>e. e_id e = eventId \<and> is_active e \<and>
                   find (\<lambda>u. u_id u = created_by e) (users s) \<noteq> None) (events s) = Some event"
  shows "can_register (permissions d) = JS_bool True \<longleftrightarrow>
           (\<exists>v. viewer = Some v \<and> v \<noteq> 0 \<and> \<not> checkUserRegistration s eventId v \<and>
                now < date_time event)"
  using assms
  by (auto simp: getEventDetails_def hasEventStarted_def Let_def split: option.splits if_splits)

text \<open>
  Claim C7 says that \<^verbatim>\<open>can_register\<close> is true exactly when the viewer is authenticated,
  is not the owner, has no confirmed registration, the event is in the future and the
  event is not full. The handler tests neither the owner nor the capacity: the flag is
  true for the owner of a future event, and for another user on a full event.
\<close>

theorem C7_can_register_owner_and_full:
  "getEventDetails 0 (demo_db [demo_event 1 10 0 1000 True] []) 1 (Some 1) =
     Inr \<lparr> available_spots = 10, is_full = False, has_started = False,
           permissions = \<lparr> can_edit = True, can_register = JS_bool True,
                           is_registered = False \<rparr> \<rparr>
   \<and> getEventDetails 0
       (demo_db [demo_event 1 1 1 1000 True] [demo_registration 1 3 1 confirmed]) 1 (Some 2) =
     Inr \<lparr> available_spots = 0, is_full = True, has_started = False,
           permissions = \<lparr> can_edit = False, can_register = JS_bool True,
                           is_registered = False \<rparr> \<rparr>"
  by (simp add: getEventDetails_def checkUserRegistration_def hasEventStarted_def model_defs)

section \<open>The order of the listing\<close>

text \<open>
  Whatever the request, the page is in the order of \<^verbatim>\<open>date_time\<close>, then of
  \<^verbatim>\<open>location\<close> with the absent locations last, when the collation is a total preorder.
\<close>

lemma set_insert_by [simp]: "set (insert_by le x xs) = insert x (set xs)"
  by (induction xs) auto

lemma sorted_insert_by:
  assumes total: "\<And>a b. le a b \<or> le b a"
    and trans: "\<And>a b c. le a b \<Longrightarrow> le b c \<Longrightarrow> le a c"
    and "sorted_wrt le xs"
  shows "sorted_wrt le (insert_by le x xs)"
  using assms(3)
proof (induction xs)
  case Nil
  then show ?case by simp
next
  case (Cons y ys)
  show ?case
  proof (cases "le x y")
    case True
    with Cons.prems trans show ?thesis by auto
  next
    case False
    with total have "le y x" by blast
    with False Cons show ?thesis by auto
  qed
qed

lemma sorted_sort_by_le:
  assumes "\<And>a b. le a b \<or> le b a"
    and "\<And>a b c. le a b \<Longrightarrow> le b c \<Longrightarrow> le a c"
  shows "sorted_wrt le (sort_by_le le xs)"
  by (induction xs) (simp_all add: sorted_insert_by[OF assms])

lemma location_le_total:
  assumes "\<And>a b. collate_le ops a b \<or> collate_le ops b a"
  shows "location_le ops x y \<or> location_le ops y x"
  using assms by (cases x; cases y) auto

lemma location_le_trans:
  assumes "\<And>a b c. collate_le ops a b \<Longrightarrow> collate_le ops b c \<Longrightarrow> collate_le ops a c"
  shows "location_le ops x y \<Longrightarrow> location_le ops y z \<Longrightarrow> location_le ops x z"
  using assms by (cases x; cases y; cases z) auto

lemma getUpcomingEvents_default_order:
  assumes total: "\<And>a b. collate_le ops a b \<or> collate_le ops b a"
    and trans: "\<And>a b c. collate_le ops a b \<Longrightarrow> collate_le ops b c \<Longrightarrow> collate_le ops a c"
  shows "sorted_wrt (order_by_le ops) (page_events (getUpcomingEvents ops now s q))"
proof -
  have t: "order_by_le ops a b \<or> order_by_le ops b a" for a b
    using location_le_total[of ops "location a" "location b"] total
    by (auto simp: order_by_le_def)
  have tr: "order_by_le ops a c" if "order_by_le ops a b" "order_by_le ops b c" for a b c
    using that location_le_trans[of ops "location a" "location b" "location c"] trans
    by (auto simp: order_by_le_def)
  have "sorted_wrt (order_by_le ops) (sort_by_le (order_by_le ops) xs)" for xs
    by (rule sorted_sort_by_le) (use t tr in blast)+
  then show ?thesis
    by (simp add: getUpcomingEvents_def Let_def sorted_wrt_take sorted_wrt_drop)
qed

text \<open>
  Claim C8 says that ListUpcoming orders the page by the requested \<^verbatim>\<open>sort_by\<close> field in
  the requested direction. The handler never reads the two parameters: with
  \<^verbatim>\<open>sort_by=capacity\<close> and \<^verbatim>\<open>sort_order=DESC\<close> the page is still in the order of
  \<^verbatim>\<open>date_time\<close>, here with the capacities ascending.
\<close>

theorem C8_sort_by_ignored:
  "map capacity (page_events (getUpcomingEvents ops 0
      (demo_db [demo_event 1 5 0 1000 True, demo_event 2 50 0 2000 True] []) demo_query))
   = [5, 50]"
  by (simp add: getUpcomingEvents_def whereClause_def order_by_le_def model_defs)

section \<open>The field \<^verbatim>\<open>is_event_soon\<close>\<close>

lemma is_event_soon_iff:
  assumes "getEventStats now s eventId = Inr st"
  shows "is_event_soon st \<longleftrightarrow> time_until_event_ms st < 86400000"
  using assms by (auto simp: getEventStats_def Let_def split: option.splits)

text \<open>
  Claim C9 says that \<^verbatim>\<open>is_event_soon\<close> is true exactly when the time until the event is
  more than zero and less than 24 hours, so that it is false for a past event. The
  handler tests the upper bound only: for an event that started 1000 ms ago the field
  is true.
\<close>

theorem C9_is_event_soon_past_event:
  "getEventStats 2000 (demo_db [demo_event 1 10 0 1000 True] []) 1 =
     Inr \<lparr> is_event_soon = True, time_until_event_ms = - 1000, used = 0, available = 10 \<rparr>"
  by (simp add: getEventStats_def model_defs)

section \<open>Registration up to the capacity\<close>

text \<open>
  Claim C2 says that of N concurrent Register calls by distinct users on an event of
  capacity C, exactly min(N, C) succeed and the others return EventFull. The calls on
  one event write one after the other, and already one call on an empty event of
  capacity 1 fails: the trigger counts the row that was just inserted and raises when
  the count has reached the capacity, so the call is answered with status 500. Of four
  calls in a row on an empty event of capacity 3, two succeed and two are answered
  with status 500, and the counter ends at 2.
\<close>

theorem C2_last_place_is_never_given:
  "registerForEvent 0 0 (demo_register 2) (demo_db [demo_event 1 1 0 1000 True] []) =
     (RegisterFailed RegistrationFailed,
      (demo_db [demo_event 1 1 0 1000 True] [])\<lparr>registrations_id_seq := 2\<rparr>)
   \<and> register_each 0 [demo_register 2, demo_register 3, demo_register 4, demo_register 5]
        (demo_db [demo_event 1 3 0 1000 True] []) =
     ([Created 1, Created 2, RegisterFailed RegistrationFailed,
       RegisterFailed RegistrationFailed],
      (demo_db [demo_event 1 3 2 1000 True]
         [demo_registration 1 2 1 confirmed, demo_registration 2 3 1 confirmed])
        \<lparr>registrations_id_seq := 5\<rparr>)"
  by (simp add: model_defs)

section \<open>Registration for a past event\<close>

lemma find_unique:
  assumes "distinct (map key xs)" and "x \<in> set xs" and "P x"
    and "\<And>y. P y \<Longrightarrow> key y = key x"
  shows "find P xs = Some x"
  using assms(1,2)
proof (induction xs)
  case Nil
  then show ?case by simp
next
  case (Cons a xs)
  show ?case
  proof (cases "a = x")
    case True
    then show ?thesis using assms(3) by simp
  next
    case False
    with Cons.prems have xin: "x \<in> set xs" and "key a \<notin> key ` set xs" by auto
    then have "key a \<noteq> key x" by blast
    with assms(4) have "\<not> P a" by blast
    with Cons.IH Cons.prems xin show ?thesis by simp
  qed
qed




section \<open>The counter invariant\<close>

lemma update_event_row_Inr:
  "update_event_row now c old = Inr new \<Longrightarrow> new = recount_row now c old"
  by (auto simp: update_event_row_def validate_event_date_def validate_event_data_def
      update_updated_at_column_def recount_row_def split: if_splits sum.splits)

lemma update_event_row_bounds:
  "update_event_row now c old = Inr new \<Longrightarrow> 0 \<le> c \<and> c \<le> capacity old \<and> now < date_time old"
  by (auto simp: update_event_row_def validate_event_date_def validate_event_data_def
      update_updated_at_column_def events_check_constraints_def split: if_splits sum.splits)

lemma map_where_Inr:
  assumes "map_where P f xs = Inr ys"
    and "\<And>x y. x \<in> set xs \<Longrightarrow> P x \<Longrightarrow> f x = Inr y \<Longrightarrow> y = g x"
  shows "ys = map (\<lambda>x. if P x then g x else x) xs"
  using assms
proof (induction xs arbitrary: ys)
  case Nil
  then show ?case by simp
next
  case (Cons x xs)
  then show ?case
    by (auto split: if_splits sum.splits)
qed

lemma map_where_ok:
  assumes "map_where P f xs = Inr ys" and "x \<in> set xs" and "P x"
  shows "\<exists>y. f x = Inr y"
  using assms
  by (induction xs arbitrary: ys) (auto split: if_splits sum.splits)

lemma update_events_Inr:
  assumes "update_events_current_registrations now eid c s = Inr s'"
  shows "s' = s\<lparr>events := map (\<lambda>e. if e_id e = eid then recount_row now c e else e) (events s)\<rparr>"
proof -
  from assms obtain es where es: "map_where (\<lambda>e. e_id e = eid) (update_event_row now c) (events s) = Inr es"
    and s': "s' = s\<lparr>events := es\<rparr>"
    by (auto simp: update_events_current_registrations_def split: sum.splits)
  from map_where_Inr[OF es, of "recount_row now c"] update_event_row_Inr
  have "es = map (\<lambda>e. if e_id e = eid then recount_row now c e else e) (events s)"
    by blast
  with s' show ?thesis by simp
qed

lemma recount_row_simps [simp]:
  "e_id (recount_row now c e) = e_id e"
  "is_active (recount_row now c e) = is_active e"
  "capacity (recount_row now c e) = capacity e"
  "date_time (recount_row now c e) = date_time e"
  "created_by (recount_row now c e) = created_by e"
  "current_registrations (recount_row now c e) = c"
  by (simp_all add: recount_row_def)

lemma recounted_refl: "recounted {} s s"
  by (simp add: recounted_def row_recounted_def list_all2_same)

lemma recounted_step:
  assumes "update_events_current_registrations now eid (count_confirmed (registrations s) eid) s = Inr s'"
  shows "recounted {eid} s s'"
  unfolding update_events_Inr[OF assms]
  by (simp add: recounted_def row_recounted_def list_all2_map2 list_all2_same)

lemma row_recounted_trans:
  "row_recounted A rs e e' \<Longrightarrow> row_recounted B rs e' e'' \<Longrightarrow> row_recounted (A \<union> B) rs e e''"
  by (auto simp: row_recounted_def split: if_splits)

lemma recounted_trans:
  assumes "recounted A s s'" and "recounted B s' s''"
  shows "recounted (A \<union> B) s s''"
proof -
  have r: "registrations s' = registrations s" using assms(1) by (simp add: recounted_def)
  have a: "list_all2 (row_recounted A (registrations s)) (events s) (events s')"
    using assms(1) by (simp add: recounted_def)
  have b: "list_all2 (row_recounted B (registrations s)) (events s') (events s'')"
    using assms(2) r by (simp add: recounted_def)
  have "list_all2 (row_recounted (A \<union> B) (registrations s)) (events s) (events s'')"
    by (rule list_all2_trans[OF _ a b]) (rule row_recounted_trans)
  then show ?thesis using assms by (simp add: recounted_def)
qed

lemma fold_err_recounted:
  assumes "fold_err f rows s = Inr s'"
    and "\<And>r t t'. r \<in> set rows \<Longrightarrow> f r t = Inr t' \<Longrightarrow> recounted {event_id r} t t'"
  shows "recounted (event_id ` set rows) s s'"
  using assms
proof (induction rows arbitrary: s)
  case Nil
  then show ?case by (simp add: recounted_refl)
next
  case (Cons r rows)
  from Cons.prems(1) obtain t where t: "f r s = Inr t" and rest: "fold_err f rows t = Inr s'"
    by (auto split: sum.splits)
  have 1: "recounted {event_id r} s t" using Cons.prems(2) t by simp
  have 2: "recounted (event_id ` set rows) t s'"
    using Cons.IH[OF rest] Cons.prems(2) by simp
  from recounted_trans[OF 1 2] show ?case by simp
qed

lemma count_trigger_UPDATE_recounted:
  "update_event_registration_count_UPDATE now r t = Inr t' \<Longrightarrow> recounted {event_id r} t t'"
  unfolding update_event_registration_count_UPDATE_def by (rule recounted_step)

lemma count_trigger_DELETE_recounted:
  "update_event_registration_count_DELETE now r t = Inr t' \<Longrightarrow> recounted {event_id r} t t'"
  unfolding update_event_registration_count_DELETE_def by (rule recounted_step)

lemma count_trigger_INSERT_recounted:
  "update_event_registration_count_INSERT now r t = Inr t' \<Longrightarrow> recounted {event_id r} t t'"
  unfolding update_event_registration_count_INSERT_def Let_def
  by (auto split: if_splits intro: recounted_step)

lemma counter_inv_recounted:
  assumes "recounted A s s'"
    and "\<And>e. e \<in> set (events s) \<Longrightarrow> e_id e \<notin> A \<Longrightarrow>
           current_registrations e = count_confirmed (registrations s) (e_id e)"
  shows "counter_inv s'"
proof -
  have regs: "registrations s' = registrations s"
    and rel: "list_all2 (row_recounted A (registrations s)) (events s) (events s')"
    using assms(1) by (simp_all add: recounted_def)
  have "current_registrations e' = count_confirmed (registrations s) (e_id e')"
    if "e' \<in> set (events s')" for e'
  proof -
    from that obtain i where i: "i < length (events s')" and e': "e' = events s' ! i"
      by (auto simp: in_set_conv_nth)
    from rel i have len: "i < length (events s)" by (simp add: list_all2_lengthD)
    define e where "e = events s ! i"
    have e: "e \<in> set (events s)" using len by (simp add: e_def)
    have rr: "row_recounted A (registrations s) e e'"
      using list_all2_nthD[OF rel len] by (simp add: e_def e')
    show ?thesis
    proof (cases "e_id e \<in> A")
      case True
      with rr show ?thesis by (simp add: row_recounted_def)
    next
      case False
      with rr have "e' = e" by (simp add: row_recounted_def)
      with assms(2)[OF e False] show ?thesis by simp
    qed
  qed
  then show ?thesis by (simp add: counter_inv_def list_all_iff regs)
qed

lemma delete_registrations_Inr:
  assumes "delete_registrations now P s = Inr s'"
  shows "recounted (event_id ` set (filter P (registrations s)))
           (s\<lparr>registrations := filter (\<lambda>r. \<not> P r) (registrations s)\<rparr>) s'"
  using assms unfolding delete_registrations_def
  by (rule fold_err_recounted) (rule count_trigger_DELETE_recounted)

lemma update_row_checked_Inr:
  "update_row_checked now s old = Inr new \<Longrightarrow> new = reactivated now old"
  by (auto simp: update_row_checked_def validate_registration_data_def
      split: sum.splits option.splits if_splits)

lemma reactivated_simps [simp]:
  "r_id (reactivated now r) = r_id r"
  "user_id (reactivated now r) = user_id r"
  "event_id (reactivated now r) = event_id r"
  "status (reactivated now r) = confirmed"
  by (simp_all add: reactivated_def)

lemma reactivated_targets:
  "event_id ` set (filter (\<lambda>r. r_id r = rid)
       (map (\<lambda>r. if r_id r = rid then reactivated now r else r) xs)) =
   event_id ` set (filter (\<lambda>r. r_id r = rid) xs)"
  by (induction xs) auto

lemma update_registration_confirmed_Inr:
  assumes "update_registration_confirmed now rid s = Inr s'"
  shows "recounted (event_id ` set (filter (\<lambda>r. r_id r = rid) (registrations s)))
           (s\<lparr>registrations :=
                map (\<lambda>r. if r_id r = rid then reactivated now r else r) (registrations s)\<rparr>) s'"
proof -
  from assms obtain rs where
    rs: "map_where (\<lambda>r. r_id r = rid) (update_row_checked now s) (registrations s) = Inr rs"
    and f: "fold_err (update_event_registration_count_UPDATE now)
              (filter (\<lambda>r. r_id r = rid) rs) (s\<lparr>registrations := rs\<rparr>) = Inr s'"
    by (auto simp: update_registration_confirmed_def split: sum.splits)
  have rs_eq: "rs = map (\<lambda>r. if r_id r = rid then reactivated now r else r) (registrations s)"
    by (rule map_where_Inr[OF rs]) (rule update_row_checked_Inr)
  have "event_id ` set (filter (\<lambda>r. r_id r = rid) rs) =
        event_id ` set (filter (\<lambda>r. r_id r = rid) (registrations s))"
    unfolding rs_eq by (rule reactivated_targets)
  moreover have "recounted (event_id ` set (filter (\<lambda>r. r_id r = rid) rs)) (s\<lparr>registrations := rs\<rparr>) s'"
    using f by (rule fold_err_recounted) (rule count_trigger_UPDATE_recounted)
  ultimately show ?thesis by (simp add: rs_eq)
qed

lemma insert_row_checked_Inr:
  assumes "insert_row_checked now s new = Inr s'"
  shows "recounted {event_id new} (s\<lparr>registrations := registrations s @ [new]\<rparr>) s'"
  using assms
  by (auto simp: insert_row_checked_def validate_event_registration_def
      validate_registration_data_def
      split: sum.splits option.splits if_splits intro: count_trigger_INSERT_recounted)

lemma count_confirmed_filter:
  assumes "eid \<notin> event_id ` set (filter P rs)"
  shows "count_confirmed (filter (\<lambda>r. \<not> P r) rs) eid = count_confirmed rs eid"
proof -
  have "filter (\<lambda>r. event_id r = eid \<and> status r = confirmed) (filter (\<lambda>r. \<not> P r) rs) =
        filter (\<lambda>r. event_id r = eid \<and> status r = confirmed) rs"
    using assms by (auto simp: filter_filter intro!: filter_cong)
  then show ?thesis by (simp add: count_confirmed_def)
qed

lemma count_confirmed_map:
  assumes "eid \<notin> event_id ` set (filter (\<lambda>r. r_id r = rid) rs)"
  shows "count_confirmed (map (\<lambda>r. if r_id r = rid then reactivated now r else r) rs) eid =
         count_confirmed rs eid"
  using assms
  by (induction rs) (auto simp: count_confirmed_def)

lemma count_confirmed_append:
  "count_confirmed (rs @ [new]) eid =
     count_confirmed rs eid + (if event_id new = eid \<and> status new = confirmed then 1 else 0)"
  by (simp add: count_confirmed_def)

lemma counter_invD:
  "counter_inv s \<Longrightarrow> e \<in> set (events s) \<Longrightarrow>
     current_registrations e = count_confirmed (registrations s) (e_id e)"
  by (simp add: counter_inv_def list_all_iff)

lemma delete_registrations_counter_inv:
  assumes "counter_inv s" and "delete_registrations now P s = Inr s'"
  shows "counter_inv s'"
  by (rule counter_inv_recounted[OF delete_registrations_Inr[OF assms(2)]])
     (simp add: count_confirmed_filter counter_invD[OF assms(1)])

lemma update_registration_confirmed_counter_inv:
  assumes "counter_inv s" and "update_registration_confirmed now rid s = Inr s'"
  shows "counter_inv s'"
  by (rule counter_inv_recounted[OF update_registration_confirmed_Inr[OF assms(2)]])
     (simp add: count_confirmed_map counter_invD[OF assms(1)])

lemma insert_row_checked_counter_inv:
  assumes "counter_inv s" and "insert_row_checked now s new = Inr s'"
  shows "counter_inv s'"
  by (rule counter_inv_recounted[OF insert_row_checked_Inr[OF assms(2)]])
     (simp add: count_confirmed_append counter_invD[OF assms(1)])

lemma counter_inv_seq [simp]:
  "counter_inv (s\<lparr>registrations_id_seq := n\<rparr>) = counter_inv s"
  by (simp add: counter_inv_def)

lemma insert_registration_counter_inv:
  assumes "counter_inv s"
  shows "counter_inv (snd (insert_registration now uid eid st s))"
  using assms insert_row_checked_counter_inv[of "s\<lparr>registrations_id_seq := registrations_id_seq s + 1\<rparr>" now]
  by (auto simp: insert_registration_def Let_def split: sum.splits)

lemma safe_event_registration_counter_inv:
  assumes "counter_inv s"
  shows "counter_inv (snd (safe_event_registration now uid eid s))"
  using assms insert_registration_counter_inv[OF assms, of now uid eid confirmed]
  by (auto simp: safe_event_registration_def split: option.splits sum.splits prod.splits)

lemma register_step5_counter_inv:
  assumes "counter_inv s"
  shows "counter_inv (snd (register_step5 now uid eid s))"
  using assms safe_event_registration_counter_inv[OF assms, of now uid eid]
  by (auto simp: register_step5_def split: fn_result.splits prod.splits option.splits)

lemma registerForEvent_counter_inv:
  assumes "counter_inv s"
  shows "counter_inv (snd (registerForEvent now_js now_db req s))"
  using assms register_step5_counter_inv[OF assms] update_registration_confirmed_counter_inv[OF assms]
  by (auto simp: registerForEvent_def Let_def split: option.splits sum.splits)

lemma safe_event_unregistration_counter_inv:
  assumes "counter_inv s"
  shows "counter_inv (snd (safe_event_unregistration now uid eid s))"
  using assms delete_registrations_counter_inv[OF assms]
  by (auto simp: safe_event_unregistration_def split: option.splits sum.splits)

lemma cancelRegistration_counter_inv:
  assumes "counter_inv s"
  shows "counter_inv (snd (cancelRegistration now_js now_db req s))"
  using assms safe_event_unregistration_counter_inv[OF assms, of now_db "cancel_target_user req" "cancel_event_id req"]
  by (auto simp: cancelRegistration_def split: option.splits fn_result.splits prod.splits)

lemma counter_inv_filter_events:
  "counter_inv s \<Longrightarrow> counter_inv (s\<lparr>events := filter Q (events s)\<rparr>)"
  by (simp add: counter_inv_def list_all_iff)

lemma counter_inv_users [simp]:
  "counter_inv (s\<lparr>users := us\<rparr>) = counter_inv s"
  by (simp add: counter_inv_def)

lemma delete_event_counter_inv:
  assumes "counter_inv s" and "delete_event now eid s = Inr s'"
  shows "counter_inv s'"
  using assms(2) unfolding delete_event_def
  by (rule delete_registrations_counter_inv[rotated]) (rule counter_inv_filter_events[OF assms(1)])

lemma fold_err_invariant:
  assumes "fold_err f xs s = Inr s'" and "I s"
    and "\<And>x t t'. I t \<Longrightarrow> f x t = Inr t' \<Longrightarrow> I t'"
  shows "I s'"
  using assms
  by (induction xs arbitrary: s) (auto split: sum.splits)

lemma delete_user_counter_inv:
  assumes "counter_inv s" and "delete_user now uid s = Inr s'"
  shows "counter_inv s'"
proof -
  from assms(2) obtain s1 where
    f: "fold_err (\<lambda>e. delete_registrations now (\<lambda>r. event_id r = e_id e))
             (filter (\<lambda>e. created_by e = uid) (events s))
             (s\<lparr>users := filter (\<lambda>u. u_id u \<noteq> uid) (users s),
                events := filter (\<lambda>e. created_by e \<noteq> uid) (events s)\<rparr>) = Inr s1"
    and d: "delete_registrations now (\<lambda>r. user_id r = uid) s1 = Inr s'"
    by (auto simp: delete_user_def split: sum.splits)
  have "counter_inv (s\<lparr>users := filter (\<lambda>u. u_id u \<noteq> uid) (users s),
                events := filter (\<lambda>e. created_by e \<noteq> uid) (events s)\<rparr>)"
    using counter_inv_filter_events[OF assms(1), of "\<lambda>e. created_by e \<noteq> uid"]
    by (simp add: counter_inv_def)
  with f have "counter_inv s1"
    by (rule fold_err_invariant) (rule delete_registrations_counter_inv)
  then show ?thesis using d by (rule delete_registrations_counter_inv)
qed

lemma apply_operation_counter_inv:
  assumes "counter_inv s"
  shows "counter_inv (apply_operation op s)"
  using assms
  by (cases op)
     (auto simp: registerForEvent_counter_inv cancelRegistration_counter_inv
       split: sum.splits intro: delete_event_counter_inv delete_user_counter_inv)

lemma run_counter_inv:
  "counter_inv s \<Longrightarrow> counter_inv (run ops s)"
  by (induction ops arbitrary: s) (simp_all add: apply_operation_counter_inv)

text \<open>
  Claim C1: in every state where the counter of each event equals the number of its
  confirmed registrations, the equality still holds after Register (with its
  reactivation path), Cancel, the cascading delete of an event and the cascading delete
  of a user, and so after every sequence of these operations.
\<close>

theorem C1_counter_invariant_preserved:
  assumes "counter_inv s"
  shows "counter_inv (apply_operation op s) \<and> counter_inv (run ops s)"
  using assms by (simp add: apply_operation_counter_inv run_counter_inv)

theorem C1_counter_invariant_preserved_witness:
  "counter_inv (demo_db [demo_event 1 3 0 1000 True] [])
   \<and> counter_inv (apply_operation (Register 0 0 (demo_register 2))
        (demo_db [demo_event 1 3 0 1000 True] []))
   \<and> counter_inv (run [Register 0 0 (demo_register 2), Register 0 0 (demo_register 3),
                       Cancel 0 0 (demo_cancel 2), DeleteUser 0 3]
        (demo_db [demo_event 1 3 0 1000 True] []))"
proof -
  have h: "counter_inv (demo_db [demo_event 1 3 0 1000 True] [])"
    by (simp add: model_defs)
  from C1_counter_invariant_preserved[OF h] h show ?thesis by blast
qed

section \<open>What an answer says about the database\<close>

lemma find_conj_Some:
  "find P xs = Some a \<Longrightarrow> Q a \<Longrightarrow> find (\<lambda>x. P x \<and> Q x) xs = Some a"
  by (induction xs) (auto split: if_splits)

lemma find_list_all2:
  assumes "list_all2 R xs ys" and "\<And>x y. R x y \<Longrightarrow> P x = Q y"
  shows "rel_option R (find P xs) (find Q ys)"
  using assms(1)
proof (induction rule: list_all2_induct)
  case Nil
  then show ?case by simp
next
  case (Cons x xs y ys)
  then show ?case using assms(2)[of x y] by auto
qed

lemma recounted_find_event:
  assumes "recounted A s s'"
    and "find (\<lambda>e. e_id e = eid \<and> is_active e) (events s) = Some ev"
  shows "\<exists>ev'. find (\<lambda>e. e_id e = eid \<and> is_active e) (events s') = Some ev' \<and>
               row_recounted A (registrations s) ev ev'"
proof -
  have "rel_option (row_recounted A (registrations s))
          (find (\<lambda>e. e_id e = eid \<and> is_active e) (events s))
          (find (\<lambda>e. e_id e = eid \<and> is_active e) (events s'))"
    using assms(1) by (intro find_list_all2) (auto simp: recounted_def row_recounted_def)
  with assms(2) show ?thesis by (auto simp: option_rel_Some1)
qed

lemma recounted_find_event_None:
  assumes "recounted A s s'"
    and "find (\<lambda>e. e_id e = eid \<and> is_active e) (events s) = None"
  shows "find (\<lambda>e. e_id e = eid \<and> is_active e) (events s') = None"
proof -
  have "rel_option (row_recounted A (registrations s))
          (find (\<lambda>e. e_id e = eid \<and> is_active e) (events s))
          (find (\<lambda>e. e_id e = eid \<and> is_active e) (events s'))"
    using assms(1) by (intro find_list_all2) (auto simp: recounted_def row_recounted_def)
  with assms(2) show ?thesis by simp
qed

lemma insert_row_checked_facts:
  assumes "insert_row_checked now s new = Inr s'"
  shows "\<exists>ev. find (\<lambda>e. e_id e = event_id new) (events s) = Some ev \<and> is_active ev \<and>
              now < date_time ev \<and>
              count_confirmed (registrations s @ [new]) (event_id new) < capacity ev"
    and "find (\<lambda>r. user_id r = user_id new \<and> event_id r = event_id new) (registrations s) = None"
    and "find (\<lambda>r. r_id r = r_id new) (registrations s) = None"
  using assms
  by (auto simp: insert_row_checked_def validate_event_registration_def
      validate_registration_data_def update_event_registration_count_INSERT_def Let_def
      split: sum.splits option.splits if_splits)

lemma safe_event_registration_success:
  assumes "safe_event_registration now u e s = (Fn_success rid t, s')"
  shows "\<exists>ev. find (\<lambda>x. e_id x = e \<and> is_active x) (events s) = Some ev \<and>
              now < date_time ev \<and>
              count_confirmed (registrations s @
                 [\<lparr>r_id = rid, user_id = u, event_id = e, registered_at = now, status = confirmed\<rparr>]) e
                < capacity ev"
    and "find (\<lambda>r. user_id r = u \<and> event_id r = e) (registrations s) = None"
    and "find (\<lambda>r. r_id r = rid) (registrations s) = None"
    and "recounted {e}
           (s\<lparr>registrations_id_seq := rid + 1,
              registrations := registrations s @
                 [\<lparr>r_id = rid, user_id = u, event_id = e, registered_at = now, status = confirmed\<rparr>]\<rparr>) s'"
proof -
  let ?new = "\<lparr>r_id = registrations_id_seq s, user_id = u, event_id = e, registered_at = now, status = confirmed\<rparr>"
  let ?s0 = "s\<lparr>registrations_id_seq := registrations_id_seq s + 1\<rparr>"
  from assms obtain ev where ev: "find (\<lambda>x. e_id x = e \<and> is_active x) (events s) = Some ev"
    and past: "\<not> date_time ev \<le> now"
    and ins: "insert_registration now u e confirmed s = (Inr rid, s')"
    by (auto simp: safe_event_registration_def failure_of_def
        split: option.splits if_splits prod.splits sum.splits pg_error.splits)
  from ins have rid: "rid = registrations_id_seq s" and irc: "insert_row_checked now ?s0 ?new = Inr s'"
    by (auto simp: insert_registration_def Let_def split: sum.splits)
  from insert_row_checked_facts(1)[OF irc] obtain ev0 where
    ev0: "find (\<lambda>x. e_id x = e) (events s) = Some ev0" "is_active ev0"
      "count_confirmed (registrations s @ [?new]) e < capacity ev0"
    by auto
  from find_conj_Some[OF ev0(1), of is_active] ev0(2) ev have "ev0 = ev" by simp
  with ev0 ev past rid
  show "\<exists>ev. find (\<lambda>x. e_id x = e \<and> is_active x) (events s) = Some ev \<and>
              now < date_time ev \<and>
              count_confirmed (registrations s @
                 [\<lparr>r_id = rid, user_id = u, event_id = e, registered_at = now, status = confirmed\<rparr>]) e
                < capacity ev"
    by auto
  from insert_row_checked_facts(2)[OF irc]
  show "find (\<lambda>r. user_id r = u \<and> event_id r = e) (registrations s) = None" by simp
  from insert_row_checked_facts(3)[OF irc] rid
  show "find (\<lambda>r. r_id r = rid) (registrations s) = None" by simp
  from insert_row_checked_Inr[OF irc] rid
  show "recounted {e}
           (s\<lparr>registrations_id_seq := rid + 1,
              registrations := registrations s @
                 [\<lparr>r_id = rid, user_id = u, event_id = e, registered_at = now, status = confirmed\<rparr>]\<rparr>) s'"
    by simp
qed

lemma registerForEvent_Created:
  assumes "registerForEvent now_js now_db req s = (Created rid, s')"
  shows "\<exists>ev. find (\<lambda>x. e_id x = reg_event_id req \<and> is_active x) (events s) = Some ev \<and>
              now_js < date_time ev"
    and "safe_event_registration now_db (target_user req) (reg_event_id req) s =
           (Fn_success rid now_db, s')"
proof -
  have step5: "safe_event_registration now_db u e s = (Fn_success rid now_db, s')"
    if "register_step5 now_db u e s = (Created rid, s')" for u e
    using that
    by (auto simp: register_step5_def safe_event_registration_def failure_of_def
        split: prod.splits fn_result.splits option.splits if_splits sum.splits pg_error.splits)
  from assms show "\<exists>ev. find (\<lambda>x. e_id x = reg_event_id req \<and> is_active x) (events s) = Some ev \<and>
              now_js < date_time ev"
    by (auto simp: registerForEvent_def Let_def split: option.splits if_splits sum.splits)
  from assms have "register_step5 now_db (target_user req) (reg_event_id req) s = (Created rid, s')"
    by (auto simp: registerForEvent_def Let_def split: option.splits if_splits sum.splits)
  then show "safe_event_registration now_db (target_user req) (reg_event_id req) s =
           (Fn_success rid now_db, s')"
    by (rule step5)
qed

lemma register_step5_not_Reactivated:
  "fst (register_step5 now u e s) \<noteq> Reactivated rid"
  by (auto simp: register_step5_def split: prod.splits fn_result.splits option.splits)

lemma registerForEvent_Reactivated:
  assumes "registerForEvent now_js now_db req s = (Reactivated rid, s')"
  shows "\<exists>r. find (\<lambda>r. user_id r = target_user req \<and> event_id r = reg_event_id req)
               (registrations s) = Some r \<and> status r = cancelled \<and> r_id r = rid"
    and "update_registration_confirmed now_db rid s = Inr s'"
    and "\<exists>ev. find (\<lambda>x. e_id x = reg_event_id req \<and> is_active x) (events s) = Some ev \<and>
              now_js < date_time ev"
  using assms register_step5_not_Reactivated[of now_db "target_user req" "reg_event_id req" s rid]
  by (auto simp: registerForEvent_def Let_def split: option.splits if_splits sum.splits)

lemma cancelRegistration_Cancelled:
  assumes "cancelRegistration now_js now_db req s = (Cancelled, s')"
  shows "delete_registrations now_db
           (\<lambda>r. user_id r = cancel_target_user req \<and> event_id r = cancel_event_id req) s = Inr s'"
  using assms
  by (auto simp: cancelRegistration_def safe_event_unregistration_def failure_of_def
      split: option.splits if_splits prod.splits fn_result.splits sum.splits pg_error.splits)

lemma recountedD:
  assumes "recounted A s s'"
  shows "registrations s' = registrations s" and "users s' = users s"
  using assms by (simp_all add: recounted_def)

lemma cancelRegistration_registrations:
  assumes "cancelRegistration now_js now_db req s = (Cancelled, s')"
  shows "registrations s' =
           filter (\<lambda>r. \<not> (user_id r = cancel_target_user req \<and> event_id r = cancel_event_id req))
             (registrations s)"
  using recountedD(1)[OF delete_registrations_Inr[OF cancelRegistration_Cancelled[OF assms]]]
  by simp

section \<open>Retrying a registration\<close>

lemma find_append_None:
  "find P xs = None \<Longrightarrow> find P (xs @ ys) = find P ys"
  by (induction xs) (auto split: if_splits)

lemma filter_find_None:
  "find P xs = None \<Longrightarrow> filter P xs = []"
  by (induction xs) (auto split: if_splits)

text \<open>
  Claim C4, as it is written, puts no condition on the second call: when it is made once
  the event has started, the handler answers EventPast before it looks for the
  registration.
\<close>

theorem C4_retry_after_start_counterexample:
  "registerForEvent 0 0 (demo_register 2) (demo_db [demo_event 1 3 0 1000 True] []) =
     (Created 1, demo_db [demo_event 1 3 1 1000 True] [demo_registration 1 2 1 confirmed])
   \<and> registerForEvent 2000 2000 (demo_register 2)
        (demo_db [demo_event 1 3 1 1000 True] [demo_registration 1 2 1 confirmed]) =
       (RegisterFailed EventPast,
        demo_db [demo_event 1 3 1 1000 True] [demo_registration 1 2 1 confirmed])
   \<and> fst (registerForEvent 2000 2000 (demo_register 2)
            (demo_db [demo_event 1 3 1 1000 True] [demo_registration 1 2 1 confirmed]))
       \<noteq> RegisterFailed AlreadyRegistered"
  by (simp add: model_defs)

text \<open>
  Claim C4, amended: after a Register of user u for event e that returned Created, a
  second Register of u for e returns AlreadyRegistered when it is made before the event
  starts, and EventPast once the event has started; in either case it leaves the
  database as the first call left it, so the counter of the event is the same after
  both calls, and there is exactly one registration row of u for e. Here \<^verbatim>\<open>ev\<close> is the
  row of the event that the first call read.
\<close>

theorem C4_retry_already_registered:
  assumes first: "registerForEvent now_js now_db req s = (Created rid, s')"
    and ev: "find (\<lambda>x. e_id x = reg_event_id req \<and> is_active x) (events s) = Some ev"
  shows "registerForEvent now_js2 now_db2 req s' =
           (RegisterFailed (if now_js2 < date_time ev then AlreadyRegistered else EventPast), s')
         \<and> length (registrations_of s' (target_user req) (reg_event_id req)) = 1"
proof -
  let ?u = "target_user req" and ?e = "reg_event_id req"
  let ?new = "\<lparr>r_id = rid, user_id = ?u, event_id = ?e, registered_at = now_db, status = confirmed\<rparr>"
  let ?s1 = "s\<lparr>registrations_id_seq := rid + 1, registrations := registrations s @ [?new]\<rparr>"
  note safe = registerForEvent_Created(2)[OF first]
  from safe_event_registration_success(1)[OF safe] ev
  have cnt: "count_confirmed (registrations s @ [?new]) ?e < capacity ev" by simp
  note none = safe_event_registration_success(2)[OF safe]
  note rec = safe_event_registration_success(4)[OF safe]
  have regs: "registrations s' = registrations s @ [?new]"
    using recountedD(1)[OF rec] by simp
  have "find (\<lambda>x. e_id x = ?e \<and> is_active x) (events ?s1) = Some ev" using ev by simp
  from recounted_find_event[OF rec this] obtain ev' where
    ev': "find (\<lambda>x. e_id x = ?e \<and> is_active x) (events s') = Some ev'"
    and rr: "row_recounted {?e} (registrations s @ [?new]) ev ev'"
    by auto
  from ev have "e_id ev = ?e" by (auto simp: find_Some_iff)
  with rr have fields: "date_time ev' = date_time ev" "capacity ev' = capacity ev"
    "current_registrations ev' = count_confirmed (registrations s @ [?new]) ?e"
    by (simp_all add: row_recounted_def)
  have found: "find (\<lambda>r. user_id r = ?u \<and> event_id r = ?e) (registrations s') = Some ?new"
    unfolding regs using find_append_None[OF none] by simp
  have "registerForEvent now_js2 now_db2 req s' =
          (RegisterFailed (if now_js2 < date_time ev then AlreadyRegistered else EventPast), s')"
    using ev' fields cnt found by (simp add: registerForEvent_def)
  moreover have "registrations_of s' ?u ?e = [?new]"
    unfolding registrations_of_def regs using filter_find_None[OF none] by simp
  ultimately show ?thesis by simp
qed

theorem C4_retry_already_registered_witness:
  "registerForEvent 0 0 (demo_register 2) (demo_db [demo_event 1 3 0 1000 True] []) =
     (Created 1, demo_db [demo_event 1 3 1 1000 True] [demo_registration 1 2 1 confirmed])
   \<and> find (\<lambda>x. e_id x = reg_event_id (demo_register 2) \<and> is_active x)
        (events (demo_db [demo_event 1 3 0 1000 True] [])) = Some (demo_event 1 3 0 1000 True)
   \<and> registerForEvent 500 500 (demo_register 2)
        (demo_db [demo_event 1 3 1 1000 True] [demo_registration 1 2 1 confirmed]) =
       (RegisterFailed AlreadyRegistered,
        demo_db [demo_event 1 3 1 1000 True] [demo_registration 1 2 1 confirmed])
   \<and> length (registrations_of
        (demo_db [demo_event 1 3 1 1000 True] [demo_registration 1 2 1 confirmed])
        (target_user (demo_register 2)) (reg_event_id (demo_register 2))) = 1"
proof -
  have h1: "registerForEvent 0 0 (demo_register 2) (demo_db [demo_event 1 3 0 1000 True] []) =
     (Created 1, demo_db [demo_event 1 3 1 1000 True] [demo_registration 1 2 1 confirmed])"
    by (simp add: model_defs)
  have h2: "find (\<lambda>x. e_id x = reg_event_id (demo_register 2) \<and> is_active x)
        (events (demo_db [demo_event 1 3 0 1000 True] [])) = Some (demo_event 1 3 0 1000 True)"
    by (simp add: model_defs)
  have h3: "(500 :: int) < date_time (demo_event 1 3 0 1000 True)"
    by (simp add: demo_event_def)
  from C4_retry_already_registered[OF h1 h2, of 500 500] h1 h2 h3 show ?thesis by simp
qed

section \<open>Cancellation deletes the row\<close>

lemma cancelled_rows_recounted:
  "recounted A s s' \<Longrightarrow> cancelled_rows s' = cancelled_rows s"
  by (simp add: cancelled_rows_def recounted_def)

lemma cancelled_rows_seq [simp]:
  "cancelled_rows (s\<lparr>registrations_id_seq := n\<rparr>) = cancelled_rows s"
  by (simp add: cancelled_rows_def)

lemma delete_registrations_cancelled_rows:
  assumes "delete_registrations now P s = Inr s'"
  shows "cancelled_rows s' \<subseteq> cancelled_rows s"
  using cancelled_rows_recounted[OF delete_registrations_Inr[OF assms]]
  by (auto simp: cancelled_rows_def)

lemma update_registration_confirmed_cancelled_rows:
  assumes "update_registration_confirmed now rid s = Inr s'"
  shows "cancelled_rows s' \<subseteq> cancelled_rows s"
  using cancelled_rows_recounted[OF update_registration_confirmed_Inr[OF assms]]
  by (auto simp: cancelled_rows_def split: if_splits)

lemma insert_registration_cancelled_rows:
  "cancelled_rows (snd (insert_registration now u e confirmed s)) \<subseteq> cancelled_rows s"
proof (cases "insert_row_checked now (s\<lparr>registrations_id_seq := registrations_id_seq s + 1\<rparr>)
           \<lparr>r_id = registrations_id_seq s, user_id = u, event_id = e, registered_at = now,
              status = confirmed\<rparr>")
  case (Inl err)
  then show ?thesis by (simp add: insert_registration_def Let_def)
next
  case (Inr s1)
  from cancelled_rows_recounted[OF insert_row_checked_Inr[OF Inr]]
  have "cancelled_rows s1 \<subseteq> cancelled_rows s" by (auto simp: cancelled_rows_def)
  with Inr show ?thesis by (simp add: insert_registration_def Let_def)
qed

lemma registerForEvent_cancelled_rows:
  "cancelled_rows (snd (registerForEvent now_js now_db req s)) \<subseteq> cancelled_rows s"
proof -
  have safe: "cancelled_rows (snd (safe_event_registration now_db u e s)) \<subseteq> cancelled_rows s" for u e
    using insert_registration_cancelled_rows[of now_db u e s]
    by (auto simp: safe_event_registration_def split: option.splits prod.splits sum.splits)
  have step5: "cancelled_rows (snd (register_step5 now_db u e s)) \<subseteq> cancelled_rows s" for u e
    using safe[of u e]
    by (auto simp: register_step5_def split: prod.splits fn_result.splits option.splits)
  show ?thesis
    using step5 update_registration_confirmed_cancelled_rows[of now_db _ s]
    by (auto simp: registerForEvent_def Let_def split: option.splits sum.splits)
qed

lemma safe_event_unregistration_cancelled_rows:
  "cancelled_rows (snd (safe_event_unregistration now u e s)) \<subseteq> cancelled_rows s"
  using delete_registrations_cancelled_rows[of now _ s]
  by (auto simp: safe_event_unregistration_def split: option.splits sum.splits)

lemma cancelRegistration_cancelled_rows:
  "cancelled_rows (snd (cancelRegistration now_js now_db req s)) \<subseteq> cancelled_rows s"
  using safe_event_unregistration_cancelled_rows[of now_db "cancel_target_user req" "cancel_event_id req" s]
  by (auto simp: cancelRegistration_def split: option.splits prod.splits fn_result.splits)

lemma delete_event_cancelled_rows:
  assumes "delete_event now eid s = Inr s'"
  shows "cancelled_rows s' \<subseteq> cancelled_rows s"
  using delete_registrations_cancelled_rows[OF assms[unfolded delete_event_def]]
  by (simp add: cancelled_rows_def)

lemma delete_user_cancelled_rows:
  assumes "delete_user now uid s = Inr s'"
  shows "cancelled_rows s' \<subseteq> cancelled_rows s"
proof -
  from assms obtain s1 where
    f: "fold_err (\<lambda>e. delete_registrations now (\<lambda>r. event_id r = e_id e))
             (filter (\<lambda>e. created_by e = uid) (events s))
             (s\<lparr>users := filter (\<lambda>u. u_id u \<noteq> uid) (users s),
                events := filter (\<lambda>e. created_by e \<noteq> uid) (events s)\<rparr>) = Inr s1"
    and d: "delete_registrations now (\<lambda>r. user_id r = uid) s1 = Inr s'"
    by (auto simp: delete_user_def split: sum.splits)
  have "cancelled_rows s1 \<subseteq> cancelled_rows s"
    using f
  proof (rule fold_err_invariant)
    show "cancelled_rows (s\<lparr>users := filter (\<lambda>u. u_id u \<noteq> uid) (users s),
                events := filter (\<lambda>e. created_by e \<noteq> uid) (events s)\<rparr>) \<subseteq> cancelled_rows s"
      by (simp add: cancelled_rows_def)
  next
    fix x t t'
    assume "cancelled_rows t \<subseteq> cancelled_rows s"
      and "delete_registrations now (\<lambda>r. event_id r = e_id x) t = Inr t'"
    then show "cancelled_rows t' \<subseteq> cancelled_rows s"
      using delete_registrations_cancelled_rows by blast
  qed
  with delete_registrations_cancelled_rows[OF d] show ?thesis by blast
qed

lemma apply_operation_cancelled_rows:
  "cancelled_rows (apply_operation op s) \<subseteq> cancelled_rows s"
  by (cases op)
     (auto simp: split: sum.splits
       dest: subsetD[OF registerForEvent_cancelled_rows] subsetD[OF cancelRegistration_cancelled_rows]
         subsetD[OF delete_event_cancelled_rows] subsetD[OF delete_user_cancelled_rows])

lemma run_cancelled_rows:
  "cancelled_rows (run ops s) \<subseteq> cancelled_rows s"
proof (induction ops arbitrary: s)
  case Nil
  then show ?case by simp
next
  case (Cons op ops)
  from Cons.IH[of "apply_operation op s"] apply_operation_cancelled_rows[of op s]
  show ?case by auto
qed

lemma find_SomeD:
  "find P xs = Some x \<Longrightarrow> x \<in> set xs \<and> P x"
  by (induction xs) (auto split: if_splits)

lemma Reactivated_needs_cancelled_row:
  assumes "registerForEvent now_js now_db req s = (Reactivated rid, s')"
  shows "\<exists>r \<in> cancelled_rows s. user_id r = target_user req \<and> event_id r = reg_event_id req"
proof -
  from registerForEvent_Reactivated(1)[OF assms] obtain r where
    "find (\<lambda>r. user_id r = target_user req \<and> event_id r = reg_event_id req)
               (registrations s) = Some r" "status r = cancelled"
    by auto
  then show ?thesis by (auto simp: cancelled_rows_def dest: find_SomeD)
qed

lemma response_status_200:
  assumes "\<And>rid. res \<noteq> Reactivated rid"
  shows "response_status res \<noteq> 200"
proof (cases res)
  case (Created rid)
  then show ?thesis by simp
next
  case (Reactivated rid)
  with assms show ?thesis by blast
next
  case (RegisterFailed err)
  then show ?thesis by (cases err) simp_all
qed

section \<open>No registration takes the last place\<close>

text \<open>
  After a Register that returned Created, the counter of the event is below its capacity:
  the trigger has rejected every insert that would have made them equal.
\<close>

lemma Created_leaves_a_free_place:
  assumes "registerForEvent now_js now_db req s = (Created rid, s')"
  shows "\<exists>ev'. find (\<lambda>x. e_id x = reg_event_id req \<and> is_active x) (events s') = Some ev' \<and>
               current_registrations ev' < capacity ev'"
proof -
  let ?u = "target_user req" and ?e = "reg_event_id req"
  let ?new = "\<lparr>r_id = rid, user_id = ?u, event_id = ?e, registered_at = now_db, status = confirmed\<rparr>"
  let ?s1 = "s\<lparr>registrations_id_seq := rid + 1, registrations := registrations s @ [?new]\<rparr>"
  note safe = registerForEvent_Created(2)[OF assms]
  from safe_event_registration_success(1)[OF safe] obtain ev where
    ev: "find (\<lambda>x. e_id x = ?e \<and> is_active x) (events s) = Some ev"
    and cnt: "count_confirmed (registrations s @ [?new]) ?e < capacity ev" by auto
  note rec = safe_event_registration_success(4)[OF safe]
  have "find (\<lambda>x. e_id x = ?e \<and> is_active x) (events ?s1) = Some ev" using ev by simp
  from recounted_find_event[OF rec this] obtain ev' where
    ev': "find (\<lambda>x. e_id x = ?e \<and> is_active x) (events s') = Some ev'"
    and rr: "row_recounted {?e} (registrations s @ [?new]) ev ev'"
    by auto
  from ev have "e_id ev = ?e" by (auto dest: find_SomeD)
  with rr cnt have "current_registrations ev' < capacity ev'"
    by (simp add: row_recounted_def)
  with ev' show ?thesis by blast
qed

section \<open>The keys of the schema are kept\<close>

text \<open>
  The primary keys and the unique constraint, which Claim C5 assumes of its first
  state, hold after every operation: an insert checks them, an update and a delete
  cannot break them.
\<close>

lemma recounted_keys:
  assumes "recounted A s s'"
  shows "db_keys s' = db_keys s"
proof -
  from assms have "list_all2 (\<lambda>e e'. e_id e' = e_id e) (events s) (events s')"
    by (auto simp: recounted_def row_recounted_def elim!: list_all2_mono)
  then have "map e_id (events s') = map e_id (events s)"
    by (induction rule: list_all2_induct) simp_all
  with recountedD(1)[OF assms] show ?thesis
    by (simp add: db_keys_def events_pkey_def registrations_pkey_def
        unique_user_event_registration_def)
qed

lemma find_None_notin:
  "find P xs = None \<Longrightarrow> \<forall>x \<in> set xs. \<not> P x"
  by (induction xs) (auto split: if_splits)

lemma insert_row_checked_keys:
  assumes "db_keys s" and "insert_row_checked now s new = Inr s'"
  shows "db_keys s'"
proof -
  have a: "r_id new \<notin> r_id ` set (registrations s)"
    using find_None_notin[OF insert_row_checked_facts(3)[OF assms(2)]] by auto
  have b: "(user_id new, event_id new) \<notin> (\<lambda>r. (user_id r, event_id r)) ` set (registrations s)"
    using find_None_notin[OF insert_row_checked_facts(2)[OF assms(2)]] by auto
  have "db_keys (s\<lparr>registrations := registrations s @ [new]\<rparr>)"
    using assms(1) a b
    by (simp add: db_keys_def events_pkey_def registrations_pkey_def
        unique_user_event_registration_def)
  with recounted_keys[OF insert_row_checked_Inr[OF assms(2)]] show ?thesis by simp
qed

lemma db_keys_seq [simp]:
  "db_keys (s\<lparr>registrations_id_seq := n\<rparr>) = db_keys s"
  by (simp add: db_keys_def events_pkey_def registrations_pkey_def
      unique_user_event_registration_def)

lemma delete_registrations_keys:
  assumes "db_keys s" and "delete_registrations now P s = Inr s'"
  shows "db_keys s'"
proof -
  have "db_keys (s\<lparr>registrations := filter (\<lambda>r. \<not> P r) (registrations s)\<rparr>)"
    using assms(1)
    by (simp add: db_keys_def events_pkey_def registrations_pkey_def
        unique_user_event_registration_def distinct_map_filter)
  with recounted_keys[OF delete_registrations_Inr[OF assms(2)]] show ?thesis by simp
qed

lemma update_registration_confirmed_keys:
  assumes "db_keys s" and "update_registration_confirmed now rid s = Inr s'"
  shows "db_keys s'"
proof -
  have 1: "map r_id (map (\<lambda>r. if r_id r = rid then reactivated now r else r) rs) = map r_id rs" for rs
    by (induction rs) auto
  have 2: "map (\<lambda>r. (user_id r, event_id r))
             (map (\<lambda>r. if r_id r = rid then reactivated now r else r) rs) =
           map (\<lambda>r. (user_id r, event_id r)) rs" for rs
    by (induction rs) auto
  have "db_keys (s\<lparr>registrations :=
           map (\<lambda>r. if r_id r = rid then reactivated now r else r) (registrations s)\<rparr>)"
    using assms(1)
    by (simp add: db_keys_def events_pkey_def registrations_pkey_def
        unique_user_event_registration_def 1 2 del: map_map)
  with recounted_keys[OF update_registration_confirmed_Inr[OF assms(2)]] show ?thesis by simp
qed

lemma registerForEvent_keys:
  assumes "db_keys s"
  shows "db_keys (snd (registerForEvent now_js now_db req s))"
proof -
  have ins: "db_keys (snd (insert_registration now_db u e confirmed s))" for u e
    using assms insert_row_checked_keys[of "s\<lparr>registrations_id_seq := registrations_id_seq s + 1\<rparr>" now_db]
    by (auto simp: insert_registration_def Let_def split: sum.splits)
  have safe: "db_keys (snd (safe_event_registration now_db u e s))" for u e
    using assms ins[of u e]
    by (auto simp: safe_event_registration_def split: option.splits prod.splits sum.splits)
  have step5: "db_keys (snd (register_step5 now_db u e s))" for u e
    using safe[of u e]
    by (auto simp: register_step5_def split: prod.splits fn_result.splits)
  show ?thesis
    using assms step5 update_registration_confirmed_keys[OF assms, of now_db]
    by (auto simp: registerForEvent_def Let_def split: option.splits sum.splits)
qed

lemma cancelRegistration_keys:
  assumes "db_keys s"
  shows "db_keys (snd (cancelRegistration now_js now_db req s))"
proof -
  have "db_keys (snd (safe_event_unregistration now_db u e s))" for u e
    using assms delete_registrations_keys[OF assms, of now_db]
    by (auto simp: safe_event_unregistration_def split: option.splits sum.splits)
  from this[of "cancel_target_user req" "cancel_event_id req"] assms show ?thesis
    by (auto simp: cancelRegistration_def split: option.splits prod.splits fn_result.splits)
qed

lemma db_keys_filter_events:
  "db_keys s \<Longrightarrow> db_keys (s\<lparr>events := filter Q (events s)\<rparr>)"
  by (simp add: db_keys_def events_pkey_def registrations_pkey_def
      unique_user_event_registration_def distinct_map_filter)

lemma db_keys_users [simp]:
  "db_keys (s\<lparr>users := us\<rparr>) = db_keys s"
  by (simp add: db_keys_def events_pkey_def registrations_pkey_def
      unique_user_event_registration_def)

lemma delete_event_keys:
  assumes "db_keys s" and "delete_event now eid s = Inr s'"
  shows "db_keys s'"
  using assms(2) unfolding delete_event_def
  by (rule delete_registrations_keys[rotated]) (rule db_keys_filter_events[OF assms(1)])

lemma delete_user_keys:
  assumes "db_keys s" and "delete_user now uid s = Inr s'"
  shows "db_keys s'"
proof -
  from assms(2) obtain s1 where
    f: "fold_err (\<lambda>e. delete_registrations now (\<lambda>r. event_id r = e_id e))
             (filter (\<lambda>e. created_by e = uid) (events s))
             (s\<lparr>users := filter (\<lambda>u. u_id u \<noteq> uid) (users s),
                events := filter (\<lambda>e. created_by e \<noteq> uid) (events s)\<rparr>) = Inr s1"
    and d: "delete_registrations now (\<lambda>r. user_id r = uid) s1 = Inr s'"
    by (auto simp: delete_user_def split: sum.splits)
  have "db_keys (s\<lparr>users := filter (\<lambda>u. u_id u \<noteq> uid) (users s),
                events := filter (\<lambda>e. created_by e \<noteq> uid) (events s)\<rparr>)"
    using db_keys_filter_events[OF assms(1), of "\<lambda>e. created_by e \<noteq> uid"]
    by (simp add: db_keys_def events_pkey_def registrations_pkey_def
        unique_user_event_registration_def)
  with f have "db_keys s1"
    by (rule fold_err_invariant) (rule delete_registrations_keys)
  then show ?thesis using d by (rule delete_registrations_keys)
qed

lemma apply_operation_keys:
  assumes "db_keys s"
  shows "db_keys (apply_operation op s)"
  using assms
  by (cases op)
     (auto simp: registerForEvent_keys cancelRegistration_keys
       split: sum.splits intro: delete_event_keys delete_user_keys)

lemma run_keys:
  "db_keys s \<Longrightarrow> db_keys (run ops s)"
  by (induction ops arbitrary: s) (simp_all add: apply_operation_keys)

section \<open>Register, Cancel, Register\<close>

lemma distinct_map_eq:
  "distinct (map key xs) \<Longrightarrow> x \<in> set xs \<Longrightarrow> y \<in> set xs \<Longrightarrow> key x = key y \<Longrightarrow> x = y"
  by (auto simp: distinct_map inj_on_def)

lemma filter_map_untouched:
  assumes "\<And>x. x \<in> set xs \<Longrightarrow> Q x \<Longrightarrow> \<not> P x" and "\<And>x. P (f x) = P x"
  shows "filter P (map (\<lambda>x. if Q x then f x else x) xs) = filter P xs"
  using assms(1)
  by (induction xs) (auto simp: assms(2))

lemma event_counter_recounted:
  assumes "recounted {e} s s'"
    and "find (\<lambda>x. e_id x = e \<and> is_active x) (events s) = Some ev"
  shows "event_counter s' e = Some (count_confirmed (registrations s) e)"
proof -
  from recounted_find_event[OF assms] obtain ev' where
    ev': "find (\<lambda>x. e_id x = e \<and> is_active x) (events s') = Some ev'"
    and rr: "row_recounted {e} (registrations s) ev ev'"
    by auto
  from assms(2) have "e_id ev = e" by (auto dest: find_SomeD)
  with rr have "current_registrations ev' = count_confirmed (registrations s) e"
    by (simp add: row_recounted_def)
  with ev' show ?thesis by (simp add: event_counter_def)
qed

lemma recounted_find_event_back:
  assumes "recounted A s s'"
    and "find (\<lambda>e. e_id e = eid \<and> is_active e) (events s') = Some ev'"
  shows "\<exists>ev. find (\<lambda>e. e_id e = eid \<and> is_active e) (events s) = Some ev"
  using recounted_find_event_None[OF assms(1), of eid] assms(2)
  by (cases "find (\<lambda>e. e_id e = eid \<and> is_active e) (events s)") auto

text \<open>The confirmed registrations of the event, without those of the user, after the first call.\<close>

lemma first_register_others:
  assumes keys: "registrations_pkey s" "unique_user_event_registration s"
    and first: "registerForEvent now_js now_db req s = (res, s')"
    and ok: "res = Created rid \<or> res = Reactivated rid"
  shows "count_confirmed
           (filter (\<lambda>r. \<not> (user_id r = target_user req \<and> event_id r = reg_event_id req))
              (registrations s')) (reg_event_id req)
         = count_confirmed (registrations s) (reg_event_id req)"
proof -
  let ?u = "target_user req" and ?e = "reg_event_id req"
  let ?mine = "\<lambda>r. user_id r = ?u \<and> event_id r = ?e"
  from ok show ?thesis
  proof
    assume res: "res = Created rid"
    let ?new = "\<lparr>r_id = rid, user_id = ?u, event_id = ?e, registered_at = now_db, status = confirmed\<rparr>"
    note safe = registerForEvent_Created(2)[OF first[unfolded res]]
    note none = safe_event_registration_success(2)[OF safe]
    have regs: "registrations s' = registrations s @ [?new]"
      using recountedD(1)[OF safe_event_registration_success(4)[OF safe]] by simp
    have "filter ?mine (registrations s) = []" using none by (rule filter_find_None)
    then have "filter (\<lambda>r. \<not> ?mine r) (registrations s) = registrations s"
      by (auto simp: filter_empty_conv filter_id_conv)
    then show ?thesis by (simp add: regs)
  next
    assume res: "res = Reactivated rid"
    from registerForEvent_Reactivated(1)[OF first[unfolded res]] obtain r where
      r: "find ?mine (registrations s) = Some r" "status r = cancelled" "r_id r = rid"
      by auto
    from find_SomeD[OF r(1)] have rin: "r \<in> set (registrations s)" and mine: "?mine r" by auto
    have regs: "registrations s' =
        map (\<lambda>x. if r_id x = rid then reactivated now_db x else x) (registrations s)"
      using recountedD(1)[OF update_registration_confirmed_Inr[OF registerForEvent_Reactivated(2)[OF first[unfolded res]]]]
      by simp
    have only: "x = r" if "x \<in> set (registrations s)" "r_id x = rid" for x
      using distinct_map_eq[OF keys(1)[unfolded registrations_pkey_def] that(1) rin] that(2) r(3)
      by simp
    have others: "filter (\<lambda>x. \<not> ?mine x) (registrations s') = filter (\<lambda>x. \<not> ?mine x) (registrations s)"
      unfolding regs
      by (rule filter_map_untouched) (use only mine in auto)
    have uniq: "x = r" if "x \<in> set (registrations s)" "?mine x" for x
      using distinct_map_eq[OF keys(2)[unfolded unique_user_event_registration_def] that(1) rin]
        that(2) mine by simp
    have "filter (\<lambda>x. event_id x = ?e \<and> status x = confirmed) (filter (\<lambda>x. \<not> ?mine x) (registrations s))
        = filter (\<lambda>x. event_id x = ?e \<and> status x = confirmed) (registrations s)"
      unfolding filter_filter
      by (rule filter_cong) (use uniq r(2) in auto)
    then have "count_confirmed (filter (\<lambda>x. \<not> ?mine x) (registrations s)) ?e =
        count_confirmed (registrations s) ?e"
      unfolding count_confirmed_def by (rule arg_cong[where f = "\<lambda>l. int (length l)"])
    then show ?thesis by (simp only: others)
  qed
qed

text \<open>
  Claim C5: in a state that satisfies the counter invariant and the keys of the
  schema, when Register of user u for event e, then Cancel of that registration, then
  Register of u for e again all succeed, the final state has exactly one registration
  row of u for e, its status is \<^verbatim>\<open>confirmed\<close>, and the counter of the event is its
  value before the sequence plus one.
\<close>

theorem C5_register_cancel_register:
  assumes inv: "counter_inv s0" "registrations_pkey s0" "unique_user_event_registration s0"
    and first: "registerForEvent t1 d1 req s0 = (res1, s1)"
    and ok1: "succeeded res1"
    and cancel: "cancelRegistration t2 d2 creq s1 = (Cancelled, s2)"
    and target: "cancel_target_user creq = target_user req"
    and event: "cancel_event_id creq = reg_event_id req"
    and second: "registerForEvent t3 d3 req s2 = (res3, s3)"
    and ok3: "succeeded res3"
  shows "map status (registrations_of s3 (target_user req) (reg_event_id req)) = [confirmed]
         \<and> (\<exists>c. event_counter s0 (reg_event_id req) = Some c \<and>
                 event_counter s3 (reg_event_id req) = Some (c + 1))"
proof -
  let ?u = "target_user req" and ?e = "reg_event_id req"
  let ?mine = "\<lambda>r. user_id r = ?u \<and> event_id r = ?e"
  have regs2: "registrations s2 = filter (\<lambda>r. \<not> ?mine r) (registrations s1)"
    using cancelRegistration_registrations[OF cancel] target event by simp
  have none2: "registrations_of s2 ?u ?e = []"
    unfolding registrations_of_def regs2 by (auto simp: filter_empty_conv)
  from ok1 obtain rid1 where ok1': "res1 = Created rid1 \<or> res1 = Reactivated rid1"
    by (cases res1) auto
  have "res3 \<noteq> Reactivated rid" for rid
  proof
    assume "res3 = Reactivated rid"
    from Reactivated_needs_cancelled_row[OF second[unfolded this]] none2
    show False by (auto simp: cancelled_rows_def registrations_of_def filter_empty_conv)
  qed
  with ok3 obtain rid3 where created: "res3 = Created rid3"
    by (cases res3) auto
  let ?new = "\<lparr>r_id = rid3, user_id = ?u, event_id = ?e, registered_at = d3, status = confirmed\<rparr>"
  note safe = registerForEvent_Created(2)[OF second[unfolded created]]
  note rec = safe_event_registration_success(4)[OF safe]
  have regs3: "registrations s3 = registrations s2 @ [?new]"
    using recountedD(1)[OF rec] by simp
  have rows: "map status (registrations_of s3 ?u ?e) = [confirmed]"
    using none2 by (simp add: registrations_of_def regs3)
  from registerForEvent_Created(1)[OF second[unfolded created]] obtain ev2 where
    ev2: "find (\<lambda>x. e_id x = ?e \<and> is_active x) (events s2) = Some ev2" by auto
  have "event_counter s3 ?e = Some (count_confirmed (registrations s2 @ [?new]) ?e)"
    using event_counter_recounted[OF rec] ev2 by simp
  also have "count_confirmed (registrations s2 @ [?new]) ?e = count_confirmed (registrations s2) ?e + 1"
    by (simp add: count_confirmed_append)
  also have "count_confirmed (registrations s2) ?e = count_confirmed (registrations s0) ?e"
    unfolding regs2 using first_register_others[OF inv(2,3) first ok1'] .
  finally have c3: "event_counter s3 ?e = Some (count_confirmed (registrations s0) ?e + 1)" .
  have "\<exists>ev0. find (\<lambda>x. e_id x = ?e \<and> is_active x) (events s0) = Some ev0"
    using ok1' registerForEvent_Created(1)[of t1 d1 req s0 rid1 s1]
      registerForEvent_Reactivated(3)[of t1 d1 req s0 rid1 s1] first
    by auto
  then obtain ev0 where ev0: "find (\<lambda>x. e_id x = ?e \<and> is_active x) (events s0) = Some ev0" ..
  from find_SomeD[OF ev0] have "ev0 \<in> set (events s0)" "e_id ev0 = ?e" by auto
  with counter_invD[OF inv(1)] have "current_registrations ev0 = count_confirmed (registrations s0) ?e"
    by auto
  with ev0 have c0: "event_counter s0 ?e = Some (count_confirmed (registrations s0) ?e)"
    by (simp add: event_counter_def)
  from rows c0 c3 show ?thesis by simp
qed

theorem C5_register_cancel_register_witness:
  "counter_inv (demo_db [demo_event 1 3 0 1000 True] [])
   \<and> registrations_pkey (demo_db [demo_event 1 3 0 1000 True] [])
   \<and> unique_user_event_registration (demo_db [demo_event 1 3 0 1000 True] [])
   \<and> registerForEvent 0 0 (demo_register 2) (demo_db [demo_event 1 3 0 1000 True] []) =
       (Created 1, demo_db [demo_event 1 3 1 1000 True] [demo_registration 1 2 1 confirmed])
   \<and> succeeded (Created 1)
   \<and> cancelRegistration 0 0 (demo_cancel 2)
        (demo_db [demo_event 1 3 1 1000 True] [demo_registration 1 2 1 confirmed]) =
       (Cancelled, (demo_db [demo_event 1 3 0 1000 True] [])\<lparr>registrations_id_seq := 2\<rparr>)
   \<and> cancel_target_user (demo_cancel 2) = target_user (demo_register 2)
   \<and> cancel_event_id (demo_cancel 2) = reg_event_id (demo_register 2)
   \<and> registerForEvent 0 0 (demo_register 2)
        ((demo_db [demo_event 1 3 0 1000 True] [])\<lparr>registrations_id_seq := 2\<rparr>) =
       (Created 2,
        (demo_db [demo_event 1 3 1 1000 True] [demo_registration 2 2 1 confirmed])
          \<lparr>registrations_id_seq := 3\<rparr>)
   \<and> succeeded (Created 2)
   \<and> map status (registrations_of
        ((demo_db [demo_event 1 3 1 1000 True] [demo_registration 2 2 1 confirmed])
           \<lparr>registrations_id_seq := 3\<rparr>)
        (target_user (demo_register 2)) (reg_event_id (demo_register 2))) = [confirmed]
   \<and> (\<exists>c. event_counter (demo_db [demo_event 1 3 0 1000 True] [])
              (reg_event_id (demo_register 2)) = Some c
          \<and> event_counter
              ((demo_db [demo_event 1 3 1 1000 True] [demo_registration 2 2 1 confirmed])
                 \<lparr>registrations_id_seq := 3\<rparr>)
              (reg_event_id (demo_register 2)) = Some (c + 1))"
proof -
  have inv: "counter_inv (demo_db [demo_event 1 3 0 1000 True] [])"
    "registrations_pkey (demo_db [demo_event 1 3 0 1000 True] [])"
    "unique_user_event_registration (demo_db [demo_event 1 3 0 1000 True] [])"
    by (simp_all add: model_defs)
  have h1: "registerForEvent 0 0 (demo_register 2) (demo_db [demo_event 1 3 0 1000 True] []) =
       (Created 1, demo_db [demo_event 1 3 1 1000 True] [demo_registration 1 2 1 confirmed])"
    by (simp add: model_defs)
  have ok1: "succeeded (Created 1)" by simp
  have h2: "cancelRegistration 0 0 (demo_cancel 2)
        (demo_db [demo_event 1 3 1 1000 True] [demo_registration 1 2 1 confirmed]) =
       (Cancelled, (demo_db [demo_event 1 3 0 1000 True] [])\<lparr>registrations_id_seq := 2\<rparr>)"
    by (simp add: model_defs)
  have t: "cancel_target_user (demo_cancel 2) = target_user (demo_register 2)"
    and e: "cancel_event_id (demo_cancel 2) = reg_event_id (demo_register 2)"
    by (simp_all add: model_defs)
  have h3: "registerForEvent 0 0 (demo_register 2)
        ((demo_db [demo_event 1 3 0 1000 True] [])\<lparr>registrations_id_seq := 2\<rparr>) =
       (Created 2,
        (demo_db [demo_event 1 3 1 1000 True] [demo_registration 2 2 1 confirmed])
          \<lparr>registrations_id_seq := 3\<rparr>)"
    by (simp add: model_defs)
  have ok3: "succeeded (Created 2)" by simp
  from C5_register_cancel_register[OF inv h1 ok1 h2 t e h3 ok3] inv h1 ok1 h2 t e h3 ok3
  show ?thesis by blast
qed

section \<open>A past event at the clock of the database\<close>

text \<open>
  When the event has started by the \<^verbatim>\<open>CURRENT_TIMESTAMP\<close> of the writing statement, even
  if the handler has read its own clock before the start, Register fails and writes
  nothing: \<^verbatim>\<open>safe_event_registration\<close> raises \<^verbatim>\<open>P0002\<close>, and the reactivating \<^verbatim>\<open>UPDATE\<close>
  is stopped by the trigger \<^verbatim>\<open>validate_registration_data\<close>.
\<close>

lemma map_where_fails:
  assumes "x \<in> set xs" and "P x" and "\<And>y. y \<in> set xs \<Longrightarrow> P y \<Longrightarrow> \<exists>err. f y = Inl err"
  shows "\<exists>err. map_where P f xs = Inl err"
  using assms
proof (induction xs)
  case Nil
  then show ?case by simp
next
  case (Cons a xs)
  show ?case
  proof (cases "P a")
    case True
    with Cons.prems(3)[of a] show ?thesis by auto
  next
    case False
    with Cons.prems have "x \<in> set xs" by auto
    from Cons.IH[OF this Cons.prems(2)] Cons.prems(3) False show ?thesis by auto
  qed
qed

lemma update_row_checked_past:
  assumes "find (\<lambda>e. e_id e = event_id old) (events s) = Some event"
    and "date_time event \<le> now"
  shows "\<exists>err. update_row_checked now s old = Inl err"
  using assms
  by (auto simp: update_row_checked_def validate_registration_data_def
      split: option.splits)

lemma registerForEvent_past_no_write:
  assumes "events_pkey s" and "registrations_pkey s"
    and "event \<in> set (events s)"
    and "e_id event = reg_event_id req"
    and "is_active event"
    and "date_time event \<le> now_db"
  shows "\<exists>err. registerForEvent now_js now_db req s = (RegisterFailed err, s)"
proof -
  have ev: "find (\<lambda>e. e_id e = reg_event_id req \<and> is_active e) (events s) = Some event"
    using assms by (intro find_unique[where key = e_id]) (auto simp: events_pkey_def)
  have ev_id: "find (\<lambda>e. e_id e = reg_event_id req) (events s) = Some event"
    using assms by (intro find_unique[where key = e_id]) (auto simp: events_pkey_def)
  have step5: "\<exists>err. register_step5 now_db u (reg_event_id req) s = (RegisterFailed err, s)" for u
    using ev assms(6) by (simp add: register_step5_def safe_event_registration_def)
  have upd: "\<exists>err. update_registration_confirmed now_db (r_id r) s = Inl err"
    if "find (\<lambda>r. user_id r = target_user req \<and> event_id r = reg_event_id req)
          (registrations s) = Some r"
    for r
  proof -
    from find_SomeD[OF that] have rin: "r \<in> set (registrations s)"
      and e: "event_id r = reg_event_id req"
      by auto
    have fails: "\<exists>err. update_row_checked now_db s y = Inl err"
      if "y \<in> set (registrations s)" "r_id y = r_id r" for y
    proof -
      from distinct_map_eq[OF assms(2)[unfolded registrations_pkey_def] that(1) rin that(2)]
      have "y = r" .
      with ev_id e assms(6) show ?thesis by (simp add: update_row_checked_past)
    qed
    have "\<exists>err. map_where (\<lambda>y. r_id y = r_id r) (update_row_checked now_db s)
            (registrations s) = Inl err"
      using rin refl fails by (rule map_where_fails)
    then show ?thesis by (auto simp: update_registration_confirmed_def)
  qed
  show ?thesis
  proof (cases "find (\<lambda>r. user_id r = target_user req \<and> event_id r = reg_event_id req)
          (registrations s)")
    case None
    with ev step5[of "target_user req"] show ?thesis
      by (auto simp: registerForEvent_def Let_def)
  next
    case (Some r)
    with ev step5[of "target_user req"] upd[OF Some] show ?thesis
      by (auto simp: registerForEvent_def Let_def)
  qed
qed

section \<open>Register after Cancel\<close>

text \<open>
  The sequence of ids stays ahead of the table under every operation, as the keys do.
\<close>

lemma fresh_recounted:
  "recounted A s s' \<Longrightarrow> registrations_id_fresh s' = registrations_id_fresh s"
  by (simp add: recounted_def registrations_id_fresh_def)

lemma insert_registration_fresh:
  assumes "registrations_id_fresh s"
  shows "registrations_id_fresh (snd (insert_registration now u e st s))"
proof (cases "insert_row_checked now (s\<lparr>registrations_id_seq := registrations_id_seq s + 1\<rparr>)
           \<lparr>r_id = registrations_id_seq s, user_id = u, event_id = e, registered_at = now,
              status = st\<rparr>")
  case (Inl err)
  with assms show ?thesis
    by (auto simp: insert_registration_def Let_def registrations_id_fresh_def list_all_iff
        less_Suc_eq)
next
  case (Inr s1)
  have "registrations_id_fresh
          (s\<lparr>registrations_id_seq := registrations_id_seq s + 1,
             registrations := registrations s @
               [\<lparr>r_id = registrations_id_seq s, user_id = u, event_id = e,
                 registered_at = now, status = st\<rparr>]\<rparr>)"
    using assms by (auto simp: registrations_id_fresh_def list_all_iff less_Suc_eq)
  with fresh_recounted[OF insert_row_checked_Inr[OF Inr]] Inr show ?thesis
    by (simp add: insert_registration_def Let_def)
qed

lemma delete_registrations_fresh:
  assumes "registrations_id_fresh s" and "delete_registrations now P s = Inr s'"
  shows "registrations_id_fresh s'"
  using fresh_recounted[OF delete_registrations_Inr[OF assms(2)]] assms(1)
  by (auto simp: registrations_id_fresh_def list_all_iff)

lemma update_registration_confirmed_fresh:
  assumes "registrations_id_fresh s" and "update_registration_confirmed now rid s = Inr s'"
  shows "registrations_id_fresh s'"
  using fresh_recounted[OF update_registration_confirmed_Inr[OF assms(2)]] assms(1)
  by (auto simp: registrations_id_fresh_def list_all_iff)

lemma registerForEvent_fresh:
  assumes "registrations_id_fresh s"
  shows "registrations_id_fresh (snd (registerForEvent now_js now_db req s))"
proof -
  have safe: "registrations_id_fresh (snd (safe_event_registration now_db u e s))" for u e
    using assms insert_registration_fresh[OF assms, of now_db u e confirmed]
    by (auto simp: safe_event_registration_def split: option.splits prod.splits sum.splits)
  have step5: "registrations_id_fresh (snd (register_step5 now_db u e s))" for u e
    using safe[of u e]
    by (auto simp: register_step5_def split: prod.splits fn_result.splits)
  show ?thesis
    using assms step5 update_registration_confirmed_fresh[OF assms, of now_db]
    by (auto simp: registerForEvent_def Let_def split: option.splits sum.splits)
qed

lemma cancelRegistration_fresh:
  assumes "registrations_id_fresh s"
  shows "registrations_id_fresh (snd (cancelRegistration now_js now_db req s))"
proof -
  have "registrations_id_fresh (snd (safe_event_unregistration now_db u e s))" for u e
    using assms delete_registrations_fresh[OF assms, of now_db]
    by (auto simp: safe_event_unregistration_def split: option.splits sum.splits)
  from this[of "cancel_target_user req" "cancel_event_id req"] assms show ?thesis
    by (auto simp: cancelRegistration_def split: option.splits prod.splits fn_result.splits)
qed

lemma delete_event_fresh:
  assumes "registrations_id_fresh s" and "delete_event now eid s = Inr s'"
  shows "registrations_id_fresh s'"
  using assms(2) unfolding delete_event_def
  by (rule delete_registrations_fresh[rotated])
     (use assms(1) in \<open>simp add: registrations_id_fresh_def\<close>)

lemma delete_user_fresh:
  assumes "registrations_id_fresh s" and "delete_user now uid s = Inr s'"
  shows "registrations_id_fresh s'"
proof -
  from assms(2) obtain s1 where
    f: "fold_err (\<lambda>e. delete_registrations now (\<lambda>r. event_id r = e_id e))
             (filter (\<lambda>e. created_by e = uid) (events s))
             (s\<lparr>users := filter (\<lambda>u. u_id u \<noteq> uid) (users s),
                events := filter (\<lambda>e. created_by e \<noteq> uid) (events s)\<rparr>) = Inr s1"
    and d: "delete_registrations now (\<lambda>r. user_id r = uid) s1 = Inr s'"
    by (auto simp: delete_user_def split: sum.splits)
  have "registrations_id_fresh (s\<lparr>users := filter (\<lambda>u. u_id u \<noteq> uid) (users s),
                events := filter (\<lambda>e. created_by e \<noteq> uid) (events s)\<rparr>)"
    using assms(1) by (simp add: registrations_id_fresh_def)
  with f have "registrations_id_fresh s1"
    by (rule fold_err_invariant) (rule delete_registrations_fresh)
  then show ?thesis using d by (rule delete_registrations_fresh)
qed

lemma apply_operation_fresh:
  assumes "registrations_id_fresh s"
  shows "registrations_id_fresh (apply_operation op s)"
  using assms
  by (cases op)
     (auto simp: registerForEvent_fresh cancelRegistration_fresh
       split: sum.splits intro: delete_event_fresh delete_user_fresh)

lemma run_fresh:
  "registrations_id_fresh s \<Longrightarrow> registrations_id_fresh (run ops s)"
  by (induction ops arbitrary: s) (simp_all add: apply_operation_fresh)

text \<open>
  The state that a Cancel leaves, and the Register that follows it: the row of the
  event passes the triggers and constraints of \<^verbatim>\<open>events\<close> a second time, and the insert
  finds neither the id nor the pair of user and event in the table.
\<close>

lemma blank_to_null_idem [simp]: "blank_to_null (blank_to_null x) = blank_to_null x"
  by (cases x) (auto simp: blank_to_null_def)

lemma update_event_row_again:
  assumes "update_event_row now c old = Inr new"
    and "now2 < date_time old" and "0 \<le> c2" and "c2 \<le> capacity old"
  shows "update_event_row now2 c2 new = Inr (recount_row now2 c2 new)"
proof -
  have new: "new = recount_row now c old" using assms(1) by (rule update_event_row_Inr)
  have ok: "events_check_constraints now new" "length (trim (title old)) \<noteq> 0"
    "capacity old \<le> 10000" "0 < capacity old" "c \<le> capacity old"
    using assms(1)
    by (auto simp: update_event_row_def validate_event_date_def validate_event_data_def
        update_updated_at_column_def events_check_constraints_def
        split: if_splits sum.splits)
  show ?thesis
    using ok assms(2-4) unfolding new
    by (auto simp: update_event_row_def validate_event_date_def validate_event_data_def
        update_updated_at_column_def events_check_constraints_def recount_row_def
        split: option.splits)
qed

lemma map_where_succeeds:
  assumes "\<And>x. x \<in> set xs \<Longrightarrow> P x \<Longrightarrow> f x = Inr (g x)"
  shows "map_where P f xs = Inr (map (\<lambda>x. if P x then g x else x) xs)"
  using assms by (induction xs) auto

lemma find_map_same:
  assumes "\<And>x. P (h x) = P x"
  shows "find P (map h xs) = map_option h (find P xs)"
  by (induction xs) (auto simp: assms)

lemma filter_unique:
  assumes "distinct (map key xs)" and "find P xs = Some r"
    and "\<And>x. P x \<Longrightarrow> key x = key r"
  shows "filter P xs = [r]"
  using assms(1,2)
proof (induction xs)
  case Nil
  then show ?case by simp
next
  case (Cons a xs)
  show ?case
  proof (cases "P a")
    case True
    with Cons.prems have a: "a = r" by simp
    have "\<not> P x" if "x \<in> set xs" for x
    proof
      assume "P x"
      then have "key x = key a" using assms(3) a by simp
      with Cons.prems(1) that show False by (auto simp: image_iff)
    qed
    then have "filter P xs = []" by (auto simp: filter_empty_conv)
    with True a show ?thesis by simp
  next
    case False
    with Cons show ?thesis by simp
  qed
qed

lemma cancelRegistration_state:
  assumes cancel: "cancelRegistration now_js now_db creq s = (Cancelled, s')"
    and uniq: "unique_user_event_registration s"
  shows "s' = s\<lparr>registrations :=
                 filter (\<lambda>r. \<not> (user_id r = cancel_target_user creq \<and>
                                event_id r = cancel_event_id creq)) (registrations s),
               events :=
                 map (\<lambda>x. if e_id x = cancel_event_id creq
                          then recount_row now_db
                                 (count_confirmed
                                    (filter (\<lambda>r. \<not> (user_id r = cancel_target_user creq \<and>
                                                   event_id r = cancel_event_id creq))
                                       (registrations s)) (cancel_event_id creq)) x
                          else x) (events s)\<rparr>"
    and "\<And>x. x \<in> set (events s) \<Longrightarrow> e_id x = cancel_event_id creq \<Longrightarrow>
           \<exists>y. update_event_row now_db
                 (count_confirmed
                    (filter (\<lambda>r. \<not> (user_id r = cancel_target_user creq \<and>
                                   event_id r = cancel_event_id creq))
                       (registrations s)) (cancel_event_id creq)) x = Inr y"
proof -
  let ?u = "cancel_target_user creq" and ?e = "cancel_event_id creq"
  let ?mine = "\<lambda>r. user_id r = ?u \<and> event_id r = ?e"
  let ?R' = "filter (\<lambda>r. \<not> ?mine r) (registrations s)"
  let ?c = "count_confirmed ?R' ?e"
  note del = cancelRegistration_Cancelled[OF cancel]
  from cancel obtain r where r: "find ?mine (registrations s) = Some r"
    by (auto simp: cancelRegistration_def safe_event_unregistration_def failure_of_def
        split: option.splits if_splits prod.splits fn_result.splits sum.splits pg_error.splits)
  from find_SomeD[OF r] have mine: "?mine r" by simp
  have one: "filter ?mine (registrations s) = [r]"
    using uniq[unfolded unique_user_event_registration_def] r
    by (rule filter_unique) (use mine in auto)
  from del have upd: "update_events_current_registrations now_db ?e ?c
        (s\<lparr>registrations := ?R'\<rparr>) = Inr s'"
    using mine
    by (auto simp: delete_registrations_def one update_event_registration_count_DELETE_def
        split: sum.splits)
  from update_events_Inr[OF upd]
  show "s' = s\<lparr>registrations := ?R',
               events := map (\<lambda>x. if e_id x = ?e then recount_row now_db ?c x else x) (events s)\<rparr>"
    by simp
  from upd obtain es where
    "map_where (\<lambda>x. e_id x = ?e) (update_event_row now_db ?c) (events s) = Inr es"
    by (auto simp: update_events_current_registrations_def split: sum.splits)
  from map_where_ok[OF this]
  show "\<And>x. x \<in> set (events s) \<Longrightarrow> e_id x = ?e \<Longrightarrow> \<exists>y. update_event_row now_db ?c x = Inr y"
    by blast
qed

lemma find_filter_not: "find P (filter (\<lambda>x. \<not> P x) xs) = None"
  by (induction xs) auto

lemma find_filter_None:
  "(\<And>x. x \<in> set xs \<Longrightarrow> \<not> Q x) \<Longrightarrow> find Q (filter R xs) = None"
  by (induction xs) auto

lemma register_after_cancel_Created:
  assumes cancel: "cancelRegistration now_js now_db creq s = (Cancelled, s')"
    and target: "target_user req = cancel_target_user creq"
    and event: "reg_event_id req = cancel_event_id creq"
    and pkey: "events_pkey s"
    and uniq: "unique_user_event_registration s"
    and fresh: "registrations_id_fresh s"
    and ev: "ev \<in> set (events s)" "e_id ev = cancel_event_id creq" "is_active ev"
    and upcoming: "now_js2 < date_time ev" "now_db2 < date_time ev"
    and user: "find (\<lambda>x. u_id x = target_user req) (users s) = Some usr" "u_is_active usr"
    and room: "count_confirmed (registrations s') (cancel_event_id creq) + 1 < capacity ev"
  shows "fst (registerForEvent now_js2 now_db2 req s') = Created (registrations_id_seq s')"
    and "registrations (snd (registerForEvent now_js2 now_db2 req s')) =
           registrations s' @
             [\<lparr>r_id = registrations_id_seq s', user_id = target_user req,
               event_id = reg_event_id req, registered_at = now_db2, status = confirmed\<rparr>]"
proof -
  let ?u = "cancel_target_user creq" and ?e = "cancel_event_id creq"
  let ?rid = "registrations_id_seq s"
  define R' where
    "R' = filter (\<lambda>r. \<not> (user_id r = ?u \<and> event_id r = ?e)) (registrations s)"
  define c where "c = count_confirmed R' ?e"
  define es' where
    "es' = map (\<lambda>x. if e_id x = ?e then recount_row now_db c x else x) (events s)"
  define new where
    "new = \<lparr>r_id = ?rid, user_id = ?u, event_id = ?e, registered_at = now_db2,
             status = confirmed\<rparr>"
  define ev' where "ev' = recount_row now_db c ev"
  define es'' where
    "es'' = map (\<lambda>x. if e_id x = ?e then recount_row now_db2 (c + 1) x else x) es'"
  note st = cancelRegistration_state[OF cancel uniq]
  have s': "s' = s\<lparr>registrations := R', events := es'\<rparr>"
    unfolding R'_def c_def es'_def by (rule st(1))
  have regs': "registrations s' = R'" and seq': "registrations_id_seq s' = ?rid"
    and users': "users s' = users s" and events': "events s' = es'"
    by (simp_all add: s')
  from room have room': "c + 1 < capacity ev" by (simp add: regs' c_def)
  have c0: "0 \<le> c" by (simp add: count_confirmed_def c_def)
  have new_simps: "r_id new = ?rid" "user_id new = ?u" "event_id new = ?e"
    "status new = confirmed"
    by (simp_all add: new_def)
  have ev'_simps: "e_id ev' = ?e" "is_active ev'" "date_time ev' = date_time ev"
    "capacity ev' = capacity ev" "current_registrations ev' = c"
    using ev by (simp_all add: ev'_def)
  \<comment> \<open>the event row, before and after the cancel\<close>
  have f_act: "find (\<lambda>x. e_id x = ?e \<and> is_active x) (events s) = Some ev"
    using pkey ev by (intro find_unique[where key = e_id]) (auto simp: events_pkey_def)
  have f_id: "find (\<lambda>x. e_id x = ?e) (events s) = Some ev"
    using pkey ev by (intro find_unique[where key = e_id]) (auto simp: events_pkey_def)
  have f_act': "find (\<lambda>x. e_id x = ?e \<and> is_active x) es' = Some ev'"
    unfolding es'_def ev'_def using f_act ev(2) by (subst find_map_same) auto
  have f_id': "find (\<lambda>x. e_id x = ?e) es' = Some ev'"
    unfolding es'_def ev'_def using f_id ev(2) by (subst find_map_same) auto
  have only: "x = ev" if "x \<in> set (events s)" "e_id x = ?e" for x
    using distinct_map_eq[OF pkey[unfolded events_pkey_def] that(1) ev(1)] that(2) ev(2) by simp
  \<comment> \<open>the registrations\<close>
  have none: "find (\<lambda>r. user_id r = ?u \<and> event_id r = ?e) R' = None"
    unfolding R'_def by (rule find_filter_not)
  have "r_id r \<noteq> ?rid" if "r \<in> set (registrations s)" for r
    using fresh that by (auto simp: registrations_id_fresh_def list_all_iff)
  then have nokey: "find (\<lambda>r. r_id r = ?rid) R' = None"
    unfolding R'_def by (intro find_filter_None) auto
  \<comment> \<open>the second update of the counter\<close>
  from st(2)[OF ev(1,2)] obtain y where "update_event_row now_db c ev = Inr y"
    unfolding c_def R'_def ..
  with update_event_row_Inr[OF this] have first: "update_event_row now_db c ev = Inr ev'"
    by (simp add: ev'_def)
  have again: "update_event_row now_db2 (c + 1) ev' = Inr (recount_row now_db2 (c + 1) ev')"
    using first upcoming(2) c0 room' by (intro update_event_row_again) auto
  have upd: "map_where (\<lambda>x. e_id x = ?e) (update_event_row now_db2 (c + 1)) es' = Inr es''"
    unfolding es''_def
  proof (rule map_where_succeeds[where g = "recount_row now_db2 (c + 1)"])
    fix x assume x: "x \<in> set es'" "e_id x = ?e"
    then obtain x0 where x0: "x0 \<in> set (events s)"
      "x = (if e_id x0 = ?e then recount_row now_db c x0 else x0)"
      by (auto simp: es'_def)
    with x(2) have "e_id x0 = ?e" by (auto split: if_splits)
    with only x0 have "x = ev'" by (auto simp: ev'_def)
    with again show "update_event_row now_db2 (c + 1) x = Inr (recount_row now_db2 (c + 1) x)"
      by simp
  qed
  have cnt: "count_confirmed (R' @ [new]) ?e = c + 1"
    by (simp add: count_confirmed_append c_def new_simps)
  let ?s'' = "s\<lparr>registrations_id_seq := ?rid + 1, registrations := R' @ [new], events := es''\<rparr>"
  have ins: "insert_row_checked now_db2 (s'\<lparr>registrations_id_seq := ?rid + 1\<rparr>) new = Inr ?s''"
    using f_id' upcoming(2) ev'_simps user room' none nokey upd target cnt
    by (simp add: insert_row_checked_def validate_event_registration_def
        validate_registration_data_def registrations_status_check_def
        update_event_registration_count_INSERT_def update_events_current_registrations_def
        s' new_simps)
  have safe: "safe_event_registration now_db2 ?u ?e s' = (Fn_success ?rid now_db2, ?s'')"
    using f_act' upcoming(2) none room' ins ev'_simps
    by (simp add: safe_event_registration_def insert_registration_def events' regs' seq'
        new_def Let_def)
  have reg: "registerForEvent now_js2 now_db2 req s' = (Created ?rid, ?s'')"
    using f_act' upcoming(1) none room' safe target event ev'_simps
    by (simp add: registerForEvent_def register_step5_def events' regs' Let_def)
  show "fst (registerForEvent now_js2 now_db2 req s') = Created (registrations_id_seq s')"
    by (simp add: reg seq')
  show "registrations (snd (registerForEvent now_js2 now_db2 req s')) =
           registrations s' @
             [\<lparr>r_id = registrations_id_seq s', user_id = target_user req,
               event_id = reg_event_id req, registered_at = now_db2, status = confirmed\<rparr>]"
    by (simp add: reg seq' regs' target event new_def)
qed

lemma never_Reactivated_after_cancel:
  assumes "cancelRegistration now_js now_db creq s = (Cancelled, s')"
    and "target_user req = cancel_target_user creq"
    and "reg_event_id req = cancel_event_id creq"
  shows "registrations_of s' (cancel_target_user creq) (cancel_event_id creq) = []"
    and "fst (registerForEvent now_js2 now_db2 req (run ops s')) \<noteq> Reactivated rid"
    and "response_status (fst (registerForEvent now_js2 now_db2 req (run ops s'))) \<noteq> 200"
proof -
  show regs: "registrations_of s' (cancel_target_user creq) (cancel_event_id creq) = []"
    unfolding registrations_of_def cancelRegistration_registrations[OF assms(1)]
    by (auto simp: filter_empty_conv)
  have never: "fst (registerForEvent now_js2 now_db2 req (run ops s')) \<noteq> Reactivated rid" for rid
  proof
    assume "fst (registerForEvent now_js2 now_db2 req (run ops s')) = Reactivated rid"
    then obtain t where "registerForEvent now_js2 now_db2 req (run ops s') = (Reactivated rid, t)"
      by (cases "registerForEvent now_js2 now_db2 req (run ops s')") auto
    from Reactivated_needs_cancelled_row[OF this] obtain r where
      "r \<in> cancelled_rows (run ops s')" "user_id r = target_user req"
      "event_id r = reg_event_id req"
      by auto
    with run_cancelled_rows[of ops s'] assms(2,3)
    have "r \<in> set (registrations_of s' (cancel_target_user creq) (cancel_event_id creq))"
      by (auto simp: cancelled_rows_def registrations_of_def)
    with regs show False by simp
  qed
  then show "fst (registerForEvent now_js2 now_db2 req (run ops s')) \<noteq> Reactivated rid" .
  show "response_status (fst (registerForEvent now_js2 now_db2 req (run ops s'))) \<noteq> 200"
    using never by (rule response_status_200)
qed

text \<open>
  Claim C10, as it is written, says that a Register after a successful Cancel always
  takes the Created path. It fails when the event has started in between, and it fails
  when another user has registered in between and one place is left.
\<close>

theorem C10_register_after_cancel_counterexample:
  "cancelRegistration 0 0 (demo_cancel 2)
      (demo_db [demo_event 1 2 1 1000 True] [demo_registration 1 2 1 confirmed]) =
     (Cancelled, (demo_db [demo_event 1 2 0 1000 True] [])\<lparr>registrations_id_seq := 2\<rparr>)
   \<and> fst (registerForEvent 2000 2000 (demo_register 2)
            ((demo_db [demo_event 1 2 0 1000 True] [])\<lparr>registrations_id_seq := 2\<rparr>)) =
       RegisterFailed EventPast
   \<and> fst (registerForEvent 0 0 (demo_register 2)
            (run [Register 0 0 (demo_register 3)]
               ((demo_db [demo_event 1 2 0 1000 True] [])\<lparr>registrations_id_seq := 2\<rparr>))) =
       RegisterFailed RegistrationFailed"
  by (simp add: model_defs)

text \<open>
  Claim C10, amended: a Cancel that succeeds deletes the registration, so that
  afterwards no registration row of the user for the event exists. After any further
  operations of the interface, a Register of that user for that event never takes the
  reactivation path: its answer is not \<^verbatim>\<open>Reactivated\<close> and its status is not 200; that
  path needs a row whose status is \<^verbatim>\<open>cancelled\<close>, and no operation writes one
  (\<open>Reactivated_needs_cancelled_row\<close>, \<open>run_cancelled_rows\<close>). And a Register that
  follows the Cancel takes the Created path, with status 201 and one confirmed row of
  the user for the event, when the keys of the schema hold, the event has not started,
  the user is active and more than one place of the event is free.
\<close>

theorem C10_cancel_deletes_row:
  assumes cancel: "cancelRegistration now_js now_db creq s = (Cancelled, s')"
    and target: "target_user req = cancel_target_user creq"
    and event: "reg_event_id req = cancel_event_id creq"
  shows "registrations_of s' (cancel_target_user creq) (cancel_event_id creq) = []
         \<and> fst (registerForEvent now_js2 now_db2 req (run ops s')) \<noteq> Reactivated rid
         \<and> response_status (fst (registerForEvent now_js2 now_db2 req (run ops s'))) \<noteq> 200
         \<and> (events_pkey s \<and> unique_user_event_registration s \<and> registrations_id_fresh s
              \<and> ev \<in> set (events s) \<and> e_id ev = cancel_event_id creq \<and> is_active ev
              \<and> now_js2 < date_time ev \<and> now_db2 < date_time ev
              \<and> find (\<lambda>x. u_id x = target_user req) (users s) = Some usr \<and> u_is_active usr
              \<and> count_confirmed (registrations s') (cancel_event_id creq) + 1 < capacity ev
             \<longrightarrow> fst (registerForEvent now_js2 now_db2 req s') = Created (registrations_id_seq s')
                 \<and> response_status (fst (registerForEvent now_js2 now_db2 req s')) = 201
                 \<and> map status (registrations_of (snd (registerForEvent now_js2 now_db2 req s'))
                       (target_user req) (reg_event_id req)) = [confirmed])"
proof -
  note never = never_Reactivated_after_cancel[OF cancel target event]
  have "fst (registerForEvent now_js2 now_db2 req s') = Created (registrations_id_seq s')
          \<and> response_status (fst (registerForEvent now_js2 now_db2 req s')) = 201
          \<and> map status (registrations_of (snd (registerForEvent now_js2 now_db2 req s'))
                (target_user req) (reg_event_id req)) = [confirmed]"
    if c: "events_pkey s" "unique_user_event_registration s" "registrations_id_fresh s"
      "ev \<in> set (events s)" "e_id ev = cancel_event_id creq" "is_active ev"
      "now_js2 < date_time ev" "now_db2 < date_time ev"
      "find (\<lambda>x. u_id x = target_user req) (users s) = Some usr" "u_is_active usr"
      "count_confirmed (registrations s') (cancel_event_id creq) + 1 < capacity ev"
  proof -
    note created = register_after_cancel_Created[OF cancel target event c]
    have "registrations_of s' (target_user req) (reg_event_id req) = []"
      using never(1) target event by simp
    then have "map status (registrations_of (snd (registerForEvent now_js2 now_db2 req s'))
                (target_user req) (reg_event_id req)) = [confirmed]"
      by (simp add: registrations_of_def created(2))
    with created(1) show ?thesis by simp
  qed
  with never show ?thesis by blast
qed

theorem C10_cancel_deletes_row_witness:
  "cancelRegistration 0 0 (demo_cancel 2)
      (demo_db [demo_event 1 3 1 1000 True] [demo_registration 1 2 1 confirmed]) =
     (Cancelled, (demo_db [demo_event 1 3 0 1000 True] [])\<lparr>registrations_id_seq := 2\<rparr>)
   \<and> target_user (demo_register 2) = cancel_target_user (demo_cancel 2)
   \<and> reg_event_id (demo_register 2) = cancel_event_id (demo_cancel 2)
   \<and> (events_pkey (demo_db [demo_event 1 3 1 1000 True] [demo_registration 1 2 1 confirmed])
      \<and> unique_user_event_registration
          (demo_db [demo_event 1 3 1 1000 True] [demo_registration 1 2 1 confirmed])
      \<and> registrations_id_fresh
          (demo_db [demo_event 1 3 1 1000 True] [demo_registration 1 2 1 confirmed])
      \<and> demo_event 1 3 1 1000 True \<in>
          set (events (demo_db [demo_event 1 3 1 1000 True] [demo_registration 1 2 1 confirmed]))
      \<and> e_id (demo_event 1 3 1 1000 True) = cancel_event_id (demo_cancel 2)
      \<and> is_active (demo_event 1 3 1 1000 True)
      \<and> 0 < date_time (demo_event 1 3 1 1000 True)
      \<and> 0 < date_time (demo_event 1 3 1 1000 True)
      \<and> find (\<lambda>x. u_id x = target_user (demo_register 2))
          (users (demo_db [demo_event 1 3 1 1000 True] [demo_registration 1 2 1 confirmed])) =
         Some (demo_user 2)
      \<and> u_is_active (demo_user 2)
      \<and> count_confirmed
          (registrations ((demo_db [demo_event 1 3 0 1000 True] [])\<lparr>registrations_id_seq := 2\<rparr>))
          (cancel_event_id (demo_cancel 2)) + 1 < capacity (demo_event 1 3 1 1000 True))
   \<and> registrations_of ((demo_db [demo_event 1 3 0 1000 True] [])\<lparr>registrations_id_seq := 2\<rparr>)
        (cancel_target_user (demo_cancel 2)) (cancel_event_id (demo_cancel 2)) = []
   \<and> fst (registerForEvent 0 0 (demo_register 2)
        (run [Register 0 0 (demo_register 3)]
           ((demo_db [demo_event 1 3 0 1000 True] [])\<lparr>registrations_id_seq := 2\<rparr>)))
       \<noteq> Reactivated 1
   \<and> response_status (fst (registerForEvent 0 0 (demo_register 2)
        (run [Register 0 0 (demo_register 3)]
           ((demo_db [demo_event 1 3 0 1000 True] [])\<lparr>registrations_id_seq := 2\<rparr>))))
       \<noteq> 200
   \<and> fst (registerForEvent 0 0 (demo_register 2)
        ((demo_db [demo_event 1 3 0 1000 True] [])\<lparr>registrations_id_seq := 2\<rparr>)) =
       Created (registrations_id_seq
         ((demo_db [demo_event 1 3 0 1000 True] [])\<lparr>registrations_id_seq := 2\<rparr>))
   \<and> response_status (fst (registerForEvent 0 0 (demo_register 2)
        ((demo_db [demo_event 1 3 0 1000 True] [])\<lparr>registrations_id_seq := 2\<rparr>))) = 201
   \<and> map status (registrations_of (snd (registerForEvent 0 0 (demo_register 2)
        ((demo_db [demo_event 1 3 0 1000 True] [])\<lparr>registrations_id_seq := 2\<rparr>)))
        (target_user (demo_register 2)) (reg_event_id (demo_register 2))) = [confirmed]"
proof -
  have h1: "cancelRegistration 0 0 (demo_cancel 2)
      (demo_db [demo_event 1 3 1 1000 True] [demo_registration 1 2 1 confirmed]) =
     (Cancelled, (demo_db [demo_event 1 3 0 1000 True] [])\<lparr>registrations_id_seq := 2\<rparr>)"
    by (simp add: model_defs)
  have h2: "target_user (demo_register 2) = cancel_target_user (demo_cancel 2)"
    by (simp add: model_defs)
  have h3: "reg_event_id (demo_register 2) = cancel_event_id (demo_cancel 2)"
    by (simp add: model_defs)
  have c: "events_pkey (demo_db [demo_event 1 3 1 1000 True] [demo_registration 1 2 1 confirmed])
      \<and> unique_user_event_registration
          (demo_db [demo_event 1 3 1 1000 True] [demo_registration 1 2 1 confirmed])
      \<and> registrations_id_fresh
          (demo_db [demo_event 1 3 1 1000 True] [demo_registration 1 2 1 confirmed])
      \<and> demo_event 1 3 1 1000 True \<in>
          set (events (demo_db [demo_event 1 3 1 1000 True] [demo_registration 1 2 1 confirmed]))
      \<and> e_id (demo_event 1 3 1 1000 True) = cancel_event_id (demo_cancel 2)
      \<and> is_active (demo_event 1 3 1 1000 True)
      \<and> 0 < date_time (demo_event 1 3 1 1000 True)
      \<and> 0 < date_time (demo_event 1 3 1 1000 True)
      \<and> find (\<lambda>x. u_id x = target_user (demo_register 2))
          (users (demo_db [demo_event 1 3 1 1000 True] [demo_registration 1 2 1 confirmed])) =
         Some (demo_user 2)
      \<and> u_is_active (demo_user 2)
      \<and> count_confirmed
          (registrations ((demo_db [demo_event 1 3 0 1000 True] [])\<lparr>registrations_id_seq := 2\<rparr>))
          (cancel_event_id (demo_cancel 2)) + 1 < capacity (demo_event 1 3 1 1000 True)"
    by (simp add: model_defs)
  from C10_cancel_deletes_row[OF h1 h2 h3,
      where ?now_js2.0 = 0 and ?now_db2.0 = 0 and ops = "[Register 0 0 (demo_register 3)]"
        and rid = 1 and ev = "demo_event 1 3 1 1000 True" and usr = "demo_user 2"]
    h1 h2 h3 c
  show ?thesis by blast
qed

end
